theory Spec2Isabelle
  imports Complex_Main
begin

section \<open>The drawing component (src/Drawing.tsx)\<close>

text \<open>
  A shallow embedding of the React component \<open>Drawing\<close>: its state variables, the
  canvas element it draws on, and its event handlers. Each handler reads the state
  of the render it was created in and queues state updates; no handler reads a state
  variable after setting it, so a handler is a function from the state before the
  event to the state after it.
\<close>

subsection \<open>JavaScript values\<close>

text \<open>
  A JavaScript number is an IEEE 754 double. A finite double is modelled by the real
  number it denotes and a non-finite one (Infinity or NaN) by \<open>None\<close>; the sign of
  zero is not represented. The numbers a handler reads (the pointer position, the
  bounding rectangle, the canvas size) are finite doubles, and every arithmetic
  operation rounds its exact result to the nearest double, ties to the even
  significand, as \<open>double_round\<close> does.
\<close>

type_synonym jsnum = "real option"

text \<open>Rounding to the nearest integer, ties to even.\<close>

definition round_half_even :: "real \<Rightarrow> int" where
  "round_half_even v =
     (let f = \<lfloor>v\<rfloor>; d = v - of_int f
      in if d < 1 / 2 then f else if 1 / 2 < d then f + 1 else if even f then f else f + 1)"

text \<open>
  The binary exponent of a positive number: \<open>k\<close> with \<open>2^k \<le> a < 2^(k+1)\<close>, and
  no less than -1022, the exponent of the subnormal doubles.
\<close>

function expo_up :: "real \<Rightarrow> int \<Rightarrow> int" where
  "expo_up a k = (if 2 \<le> a then expo_up (a / 2) (k + 1) else k)"
  by pat_completeness auto
termination
proof (relation "measure (\<lambda>(a, k). nat \<lceil>a\<rceil>)")
  show "wf (measure (\<lambda>(a, k). nat \<lceil>a\<rceil>))" by simp
next
  fix a :: real and k :: int
  assume "2 \<le> a"
  then have "a / 2 \<le> a - 1" by simp
  then have "\<lceil>a / 2\<rceil> \<le> \<lceil>a - 1\<rceil>" by (rule ceiling_mono)
  then have "\<lceil>a / 2\<rceil> < \<lceil>a\<rceil>" by simp
  moreover have "0 < \<lceil>a\<rceil>" using \<open>2 \<le> a\<close> by linarith
  ultimately show "((a / 2, k + 1), (a, k)) \<in> measure (\<lambda>(a, k). nat \<lceil>a\<rceil>)"
    by simp
qed

function expo_down :: "real \<Rightarrow> int \<Rightarrow> int" where
  "expo_down a k = (if a < 1 \<and> - 1022 < k then expo_down (2 * a) (k - 1) else k)"
  by pat_completeness auto
termination
  by (relation "measure (\<lambda>(a, k). nat (k + 1022))") auto

definition exponent :: "real \<Rightarrow> int" where
  "exponent a = (if 1 \<le> a then expo_up a 0 else expo_down a 0)"

text \<open>
  A positive number rounded to 53 significant bits at its exponent (to a multiple of
  \<open>2^-1074\<close> in the subnormal range).
\<close>

definition round_magnitude :: "real \<Rightarrow> real" where
  "round_magnitude a =
     (let q = 2 powi (exponent a - 52) in of_int (round_half_even (a / q)) * q)"

text \<open>
  The double nearest to a real number; a result of magnitude \<open>2^1024\<close> or more is
  an overflow, which gives Infinity.
\<close>

definition double_round :: "real \<Rightarrow> jsnum" where
  "double_round v =
     (if v = 0 then Some 0
      else (let r = round_magnitude \<bar>v\<bar>
            in if 2 ^ 1024 \<le> r then None else Some (if v < 0 then - r else r)))"

text \<open>
  Subtraction, division and multiplication of doubles. A division by zero gives
  Infinity or NaN, and a product with a factor that is not finite is not finite.
\<close>

definition js_sub :: "real \<Rightarrow> real \<Rightarrow> jsnum" where
  "js_sub a b = double_round (a - b)"

definition js_div :: "real \<Rightarrow> real \<Rightarrow> jsnum" where
  "js_div a b = (if b = 0 then None else double_round (a / b))"

definition js_mul :: "jsnum \<Rightarrow> jsnum \<Rightarrow> jsnum" where
  "js_mul a b = (case a of None \<Rightarrow> None
                 | Some u \<Rightarrow> (case b of None \<Rightarrow> None | Some v \<Rightarrow> double_round (u * v)))"

text \<open>
  \<open>Array.prototype.slice(start, end)\<close>: a negative bound counts from the end of
  the array, and both bounds are clamped to the array.
\<close>

definition js_slice :: "'a list \<Rightarrow> int \<Rightarrow> int \<Rightarrow> 'a list" where
  "js_slice xs start fin =
     (let len = int (length xs);
          k = (if start < 0 then max (len + start) 0 else min start len);
          e = (if fin < 0 then max (len + fin) 0 else min fin len)
      in take (nat (e - k)) (drop (nat k) xs))"

text \<open>\<open>xs[i]\<close>: \<open>undefined\<close> (here \<open>None\<close>) outside the array.\<close>

definition js_index :: "'a list \<Rightarrow> int \<Rightarrow> 'a option" where
  "js_index xs i = (if 0 \<le> i \<and> i < int (length xs) then Some (xs ! nat i) else None)"

datatype error = TypeError

subsection \<open>The canvas element and its 2D context\<close>

record point =
  x :: jsnum
  y :: jsnum

text \<open>
  The pixel content of the canvas is represented by the stroke operations painted on
  it since it was last blank, in paint order: the empty list is the blank canvas, and
  equal lists are equal pixel contents. One stroke operation paints every segment of
  the path it is given with one width and one colour.
\<close>

record paint =
  paint_path :: "(real \<times> real) list list"
  paint_width :: int
  paint_style :: string

type_synonym bitmap = "paint list"

record ctx2d =
  lineCap :: string
  lineJoin :: string
  lineWidth :: int
  strokeStyle :: string
  path :: "(real \<times> real) list list"

record dom_rect =
  rect_left :: real
  rect_top :: real
  rect_width :: real
  rect_height :: real

text \<open>
  \<open>getContext\<close> is the result of \<open>canvas.getContext("2d")\<close>: the context of the
  canvas, or \<open>None\<close> for \<open>null\<close>.
\<close>

record canvas_el =
  width :: real
  height :: real
  getBoundingClientRect :: dom_rect
  getContext :: "ctx2d option"
  pixels :: bitmap

record mouse_event =
  clientX :: real
  clientY :: real

definition beginPath :: "ctx2d \<Rightarrow> ctx2d" where
  "beginPath c = c\<lparr>path := []\<rparr>"

text \<open>\<open>moveTo\<close> and \<open>lineTo\<close> ignore a point with a non-finite coordinate.\<close>

definition finite_point :: "point \<Rightarrow> (real \<times> real) option" where
  "finite_point p = (case x p of None \<Rightarrow> None
                     | Some a \<Rightarrow> (case y p of None \<Rightarrow> None | Some b \<Rightarrow> Some (a, b)))"

definition moveTo :: "ctx2d \<Rightarrow> point \<Rightarrow> ctx2d" where
  "moveTo c p = (case finite_point p of None \<Rightarrow> c
                 | Some q \<Rightarrow> c\<lparr>path := path c @ [[q]]\<rparr>)"

definition lineTo :: "ctx2d \<Rightarrow> point \<Rightarrow> ctx2d" where
  "lineTo c p = (case finite_point p of None \<Rightarrow> c
                 | Some q \<Rightarrow> (if path c = [] then c\<lparr>path := [[q]]\<rparr>
                             else c\<lparr>path := butlast (path c) @ [last (path c) @ [q]]\<rparr>))"

text \<open>\<open>ctx.stroke()\<close> paints the whole current path with the current width and style.\<close>

definition stroke :: "ctx2d \<Rightarrow> bitmap \<Rightarrow> bitmap" where
  "stroke c b = b @ [\<lparr>paint_path = path c, paint_width = lineWidth c,
                      paint_style = strokeStyle c\<rparr>]"

text \<open>\<open>ctx.clearRect(0, 0, canvas.width, canvas.height)\<close>: the whole canvas is blank.\<close>

definition clearRect :: "bitmap \<Rightarrow> bitmap" where
  "clearRect b = []"

text \<open>\<open>ctx.drawImage(img, 0, 0)\<close>: the image is painted over the present content.\<close>

definition drawImage :: "bitmap \<Rightarrow> bitmap \<Rightarrow> bitmap" where
  "drawImage img b = b @ img"

text \<open>
  \<open>canvas.toDataURL()\<close> encodes the pixel content without loss; a data URL is
  identified with the pixel content it encodes.
\<close>

type_synonym dataURL = bitmap

definition toDataURL :: "canvas_el \<Rightarrow> dataURL" where
  "toDataURL canvas = pixels canvas"

subsection \<open>The component state\<close>

record DrawingHistory =
  dataURL :: dataURL
  snap_strokeWidth :: int
  snap_color :: string

text \<open>
  \<open>canvasRef\<close> is \<open>canvasRef.current\<close>. \<open>loading\<close> holds, in the order they
  were created, the images whose \<open>src\<close> has been set by \<open>loadHistoryState\<close> and
  whose \<open>onload\<close> has not run yet.
\<close>

record app_state =
  strokeWidth :: int
  color :: string
  canvasRef :: "canvas_el option"
  isDrawing :: bool
  history :: "DrawingHistory list"
  historyIndex :: int
  loading :: "bitmap list"

subsection \<open>The handlers\<close>

definition getMousePos :: "canvas_el \<Rightarrow> mouse_event \<Rightarrow> point" where
  "getMousePos canvas evt =
     (let rect = getBoundingClientRect canvas;
          scaleX = js_div (width canvas) (rect_width rect);
          scaleY = js_div (height canvas) (rect_height rect)
      in \<lparr>x = js_mul (js_sub (clientX evt) (rect_left rect)) scaleX,
          y = js_mul (js_sub (clientY evt) (rect_top rect)) scaleY\<rparr>)"

definition startDrawing :: "mouse_event \<Rightarrow> app_state \<Rightarrow> app_state" where
  "startDrawing e s =
     (case canvasRef s of None \<Rightarrow> s
      | Some canvas \<Rightarrow>
          (case getContext canvas of None \<Rightarrow> s
           | Some ctx \<Rightarrow>
               (let pos = getMousePos canvas e;
                    ctx1 = beginPath ctx;
                    ctx2 = moveTo ctx1 pos
                in s\<lparr>canvasRef := Some (canvas\<lparr>getContext := Some ctx2\<rparr>),
                      isDrawing := True\<rparr>)))"

definition draw :: "mouse_event \<Rightarrow> app_state \<Rightarrow> app_state" where
  "draw e s =
     (if \<not> isDrawing s then s
      else (case canvasRef s of None \<Rightarrow> s
            | Some canvas \<Rightarrow>
                (case getContext canvas of None \<Rightarrow> s
                 | Some ctx \<Rightarrow>
                     (let pos = getMousePos canvas e;
                          ctx1 = ctx\<lparr>lineWidth := strokeWidth s\<rparr>;
                          ctx2 = ctx1\<lparr>strokeStyle := color s\<rparr>;
                          ctx3 = lineTo ctx2 pos
                      in s\<lparr>canvasRef := Some (canvas\<lparr>getContext := Some ctx3,
                              pixels := stroke ctx3 (pixels canvas)\<rparr>)\<rparr>))))"

definition endDrawing :: "app_state \<Rightarrow> app_state" where
  "endDrawing s =
     (case canvasRef s of None \<Rightarrow> s
      | Some canvas \<Rightarrow>
          (let newHistory = \<lparr>dataURL = toDataURL canvas,
                             snap_strokeWidth = strokeWidth s,
                             snap_color = color s\<rparr>
           in s\<lparr>isDrawing := False,
                 history := js_slice (history s) 0 (historyIndex s + 1) @ [newHistory],
                 historyIndex := historyIndex s + 1\<rparr>))"

text \<open>
  \<open>history[index].dataURL\<close> throws a TypeError when \<open>history[index]\<close> is
  \<open>undefined\<close>; the handler then ends with the error (the state is not carried
  further). Otherwise the image is created and its load started; its \<open>onload\<close>
  runs later, as the separate event \<open>img_onload\<close>.
\<close>

definition loadHistoryState :: "int \<Rightarrow> app_state \<Rightarrow> error + app_state" where
  "loadHistoryState index s =
     (case canvasRef s of None \<Rightarrow> Inr s
      | Some canvas \<Rightarrow>
          (case getContext canvas of None \<Rightarrow> Inr s
           | Some ctx \<Rightarrow>
               (case js_index (history s) index of None \<Rightarrow> Inl TypeError
                | Some h \<Rightarrow>
                    Inr (s\<lparr>loading := loading s @ [dataURL h],
                           strokeWidth := snap_strokeWidth h,
                           color := snap_color h\<rparr>))))"

text \<open>
  The \<open>onload\<close> callback of the \<open>k\<close>-th image still loading: it clears the canvas
  and draws the image. Nothing in the source orders the loads of different images,
  so any image still loading may be the next to complete.
\<close>

definition img_onload :: "nat \<Rightarrow> app_state \<Rightarrow> app_state" where
  "img_onload k s =
     (if k < length (loading s)
      then (let img = loading s ! k;
                rest = take k (loading s) @ drop (Suc k) (loading s)
            in (case canvasRef s of None \<Rightarrow> s\<lparr>loading := rest\<rparr>
                | Some canvas \<Rightarrow>
                    s\<lparr>canvasRef := Some (canvas\<lparr>pixels := drawImage img (clearRect (pixels canvas))\<rparr>),
                      loading := rest\<rparr>))
      else s)"

definition undo :: "app_state \<Rightarrow> error + app_state" where
  "undo s =
     (if historyIndex s > 0
      then loadHistoryState (historyIndex s - 1) (s\<lparr>historyIndex := historyIndex s - 1\<rparr>)
      else Inr s)"

definition redo :: "app_state \<Rightarrow> error + app_state" where
  "redo s =
     (if historyIndex s < int (length (history s)) - 1
      then loadHistoryState (historyIndex s + 1) (s\<lparr>historyIndex := historyIndex s + 1\<rparr>)
      else Inr s)"

definition clearCanvas :: "app_state \<Rightarrow> app_state" where
  "clearCanvas s =
     (case canvasRef s of None \<Rightarrow> s
      | Some canvas \<Rightarrow>
          (case getContext canvas of None \<Rightarrow> s
           | Some ctx \<Rightarrow>
               s\<lparr>canvasRef := Some (canvas\<lparr>pixels := clearRect (pixels canvas)\<rparr>),
                 history := [],
                 historyIndex := - 1\<rparr>))"

text \<open>The colour buttons and the width slider.\<close>

definition setColor :: "string \<Rightarrow> app_state \<Rightarrow> app_state" where
  "setColor c s = s\<lparr>color := c\<rparr>"

definition setStrokeWidth :: "int \<Rightarrow> app_state \<Rightarrow> app_state" where
  "setStrokeWidth w s = s\<lparr>strokeWidth := w\<rparr>"

subsection \<open>The mounted component\<close>

text \<open>
  The state after the first render and its effect: the \<open>useState\<close> initial values,
  the 800 by 600 canvas of the JSX, blank, with round caps and joins. The canvas is
  shown at its logical size at the origin of the viewport.
\<close>

definition initial_ctx :: ctx2d where
  "initial_ctx = \<lparr>lineCap = ''round'', lineJoin = ''round'', lineWidth = 1,
                  strokeStyle = ''#000000'', path = []\<rparr>"

definition initial_canvas :: canvas_el where
  "initial_canvas = \<lparr>width = 800, height = 600,
                     getBoundingClientRect = \<lparr>rect_left = 0, rect_top = 0,
                                               rect_width = 800, rect_height = 600\<rparr>,
                     getContext = Some initial_ctx, pixels = []\<rparr>"

definition initial_state :: app_state where
  "initial_state = \<lparr>strokeWidth = 8, color = ''#000000'', canvasRef = Some initial_canvas,
                    isDrawing = False, history = [], historyIndex = - 1, loading = []\<rparr>"

text \<open>The canvas and its context are available.\<close>

definition surface_ready :: "app_state \<Rightarrow> bool" where
  "surface_ready s = (case canvasRef s of None \<Rightarrow> False
                      | Some canvas \<Rightarrow> getContext canvas \<noteq> None)"

text \<open>The pixel content of the canvas (blank when there is no canvas).\<close>

definition surface :: "app_state \<Rightarrow> bitmap" where
  "surface s = (case canvasRef s of None \<Rightarrow> [] | Some canvas \<Rightarrow> pixels canvas)"

text \<open>The invariant of the history: \<open>-1 \<le> historyIndex \<le> length history - 1\<close>.\<close>

definition history_inv :: "app_state \<Rightarrow> bool" where
  "history_inv s = (- 1 \<le> historyIndex s \<and> historyIndex s \<le> int (length (history s)) - 1)"

subsection \<open>Events\<close>

text \<open>
  The events of the JSX: \<open>onMouseDown\<close>, \<open>onMouseMove\<close>, \<open>onMouseUp\<close> and
  \<open>onMouseOut\<close> of the canvas (the last two both call \<open>endDrawing\<close>), the
  clicks on the toolbar, and the completion of the load of an image.
\<close>

datatype event =
    MouseDown mouse_event
  | MouseMove mouse_event
  | MouseUp
  | MouseOut
  | ClickUndo
  | ClickRedo
  | ClickClear
  | ClickColor string
  | ChangeWidth int
  | ImgLoad nat

fun handle :: "event \<Rightarrow> app_state \<Rightarrow> error + app_state" where
  "handle (MouseDown e) s = Inr (startDrawing e s)"
| "handle (MouseMove e) s = Inr (draw e s)"
| "handle MouseUp s = Inr (endDrawing s)"
| "handle MouseOut s = Inr (endDrawing s)"
| "handle ClickUndo s = undo s"
| "handle ClickRedo s = redo s"
| "handle ClickClear s = Inr (clearCanvas s)"
| "handle (ClickColor c) s = Inr (setColor c s)"
| "handle (ChangeWidth w) s = Inr (setStrokeWidth w s)"
| "handle (ImgLoad k) s = Inr (img_onload k s)"

fun run :: "event list \<Rightarrow> app_state \<Rightarrow> error + app_state" where
  "run [] s = Inr s"
| "run (e # es) s = (case handle e s of Inl err \<Rightarrow> Inl err | Inr s' \<Rightarrow> run es s')"

text \<open>The images still loading complete in the order in which they were created.\<close>

primrec loads_in_order :: "nat \<Rightarrow> app_state \<Rightarrow> app_state" where
  "loads_in_order 0 s = s"
| "loads_in_order (Suc n) s = loads_in_order n (img_onload 0 s)"

definition all_loaded :: "app_state \<Rightarrow> app_state" where
  "all_loaded s = loads_in_order (length (loading s)) s"

text \<open>
  The segments of a path, and the widths and colours with which a bitmap paints a
  given segment, in paint order: the last one is what the segment looks like.
\<close>

definition segments :: "(real \<times> real) list list \<Rightarrow> ((real \<times> real) \<times> (real \<times> real)) list" where
  "segments p = concat (map (\<lambda>sub. zip sub (tl sub)) p)"

definition segment_styles ::
  "bitmap \<Rightarrow> (real \<times> real) \<times> (real \<times> real) \<Rightarrow> (int \<times> string) list" where
  "segment_styles b seg =
     map (\<lambda>op. (paint_width op, paint_style op))
       (filter (\<lambda>op. seg \<in> set (segments (paint_path op))) b)"

subsection \<open>Example sessions\<close>

definition pointer_at :: "real \<Rightarrow> real \<Rightarrow> mouse_event" where
  "pointer_at a b = \<lparr>clientX = a, clientY = b\<rparr>"

text \<open>One stroke, released inside the canvas, and the pointer then leaving the canvas.\<close>

definition stroke_and_leave :: "event list" where
  "stroke_and_leave = [MouseDown (pointer_at 10 10), MouseMove (pointer_at 20 10), MouseUp, MouseOut]"

text \<open>Three strokes, each ended by releasing the button.\<close>

definition three_strokes :: "event list" where
  "three_strokes =
     [MouseDown (pointer_at 10 10), MouseMove (pointer_at 20 10), MouseUp,
      MouseDown (pointer_at 10 20), MouseMove (pointer_at 20 20), MouseUp,
      MouseDown (pointer_at 10 30), MouseMove (pointer_at 20 30), MouseUp]"

text \<open>The three snapshots these strokes commit.\<close>

definition snap1 :: DrawingHistory where
  "snap1 = \<lparr>dataURL = [\<lparr>paint_path = [[(10, 10), (20, 10)]], paint_width = 8,
                         paint_style = ''#000000''\<rparr>],
            snap_strokeWidth = 8, snap_color = ''#000000''\<rparr>"

definition snap2 :: DrawingHistory where
  "snap2 = \<lparr>dataURL = dataURL snap1 @ [\<lparr>paint_path = [[(10, 20), (20, 20)]], paint_width = 8,
                         paint_style = ''#000000''\<rparr>],
            snap_strokeWidth = 8, snap_color = ''#000000''\<rparr>"

definition snap3 :: DrawingHistory where
  "snap3 = \<lparr>dataURL = dataURL snap2 @ [\<lparr>paint_path = [[(10, 30), (20, 30)]], paint_width = 8,
                         paint_style = ''#000000''\<rparr>],
            snap_strokeWidth = 8, snap_color = ''#000000''\<rparr>"

definition after_three_strokes :: app_state where
  "after_three_strokes =
     \<lparr>strokeWidth = 8, color = ''#000000'',
      canvasRef = Some (initial_canvas
        \<lparr>getContext := Some (initial_ctx\<lparr>lineWidth := 8, path := [[(10, 30), (20, 30)]]\<rparr>),
         pixels := dataURL snap3\<rparr>),
      isDrawing = False, history = [snap1, snap2, snap3], historyIndex = 2, loading = []\<rparr>"

text \<open>A colour change in the middle of a stroke, then one more segment.\<close>

definition mid_stroke :: app_state where
  "mid_stroke =
     \<lparr>strokeWidth = 8, color = ''#FF0000'',
      canvasRef = Some (initial_canvas
        \<lparr>getContext := Some (initial_ctx\<lparr>lineWidth := 8, path := [[(10, 10), (20, 10)]]\<rparr>),
         pixels := dataURL snap1\<rparr>),
      isDrawing = True, history = [], historyIndex = - 1, loading = []\<rparr>"

definition mid_stroke_change :: "event list" where
  "mid_stroke_change =
     [MouseDown (pointer_at 10 10), MouseMove (pointer_at 20 10), ClickColor ''#FF0000'',
      MouseMove (pointer_at 20 30)]"

definition mid_stroke_pixels :: bitmap where
  "mid_stroke_pixels =
     [\<lparr>paint_path = [[(10, 10), (20, 10)]], paint_width = 8, paint_style = ''#000000''\<rparr>,
      \<lparr>paint_path = [[(10, 10), (20, 10), (20, 30)]], paint_width = 8,
        paint_style = ''#FF0000''\<rparr>]"

text \<open>
  The surface is in step with the history: it shows the snapshot at the history
  index or, while images are loading, the last of them is that snapshot.
\<close>

definition in_step :: "app_state \<Rightarrow> bool" where
  "in_step s =
     (case js_index (history s) (historyIndex s) of None \<Rightarrow> False
      | Some h \<Rightarrow> (if loading s = [] then surface s = dataURL h
                   else last (loading s) = dataURL h))"

definition shown_when_loaded :: "app_state \<Rightarrow> bitmap" where
  "shown_when_loaded s = surface (all_loaded s)"

text \<open>
  A stroke, the pointer leaving the canvas, a new colour picked, then undo and redo
  and the two image loads.
\<close>

definition before_undo_session :: "event list" where
  "before_undo_session = stroke_and_leave @ [ClickColor ''#FF0000'']"

definition undo_redo_session :: "event list" where
  "undo_redo_session = before_undo_session @ [ClickUndo, ClickRedo, ImgLoad 0, ImgLoad 0]"

text \<open>
  Three strokes, the pointer leaving the canvas, two undos, and the image of the
  second undo loading before the image of the first.
\<close>

definition stale_load_session :: "event list" where
  "stale_load_session = three_strokes @ [MouseOut, ClickUndo, ClickUndo, ImgLoad 1, ImgLoad 0]"

text \<open>
  The state of \<open>stale_load_session\<close> before its last event: the image of the
  second undo has loaded, the image of the first is still loading.
\<close>

definition stale_pending :: app_state where
  "stale_pending =
     \<lparr>strokeWidth = 8, color = ''#000000'',
      canvasRef = Some (initial_canvas
        \<lparr>getContext := Some (initial_ctx\<lparr>lineWidth := 8, path := [[(10, 30), (20, 30)]]\<rparr>),
         pixels := dataURL snap2\<rparr>),
      isDrawing = False, history = [snap1, snap2, snap3, snap3], historyIndex = 1,
      loading = [dataURL snap3]\<rparr>"

text \<open>A canvas of 800 by 600 shown at 302 by 220.\<close>

definition scaled_canvas :: canvas_el where
  "scaled_canvas = initial_canvas\<lparr>getBoundingClientRect :=
     \<lparr>rect_left = 0, rect_top = 0, rect_width = 302, rect_height = 220\<rparr>\<rparr>"

text \<open>
  A number that an operation rounds without underflow or overflow: zero, or of
  magnitude between \<open>2^-1021\<close> and \<open>2^1022\<close>.
\<close>

definition in_range :: "real \<Rightarrow> bool" where
  "in_range v = (v = 0 \<or> (2 powi (- 1021) \<le> \<bar>v\<bar> \<and> \<bar>v\<bar> \<le> 2 powi 1022))"

text \<open>
  The events of a stroke in progress: pointer moves and changes of the tools. The
  points of a stroke are the positions of its events that have finite coordinates; a
  path with no point has no subpath. The tools current after some events are the
  last ones selected.
\<close>

fun stroke_event :: "event \<Rightarrow> bool" where
  "stroke_event (MouseMove e) = True"
| "stroke_event (ClickColor c) = True"
| "stroke_event (ChangeWidth w) = True"
| "stroke_event e = False"

fun moves_of :: "event list \<Rightarrow> mouse_event list" where
  "moves_of [] = []"
| "moves_of (MouseMove e # es) = e # moves_of es"
| "moves_of (e # es) = moves_of es"

definition stroke_points :: "canvas_el \<Rightarrow> mouse_event list \<Rightarrow> (real \<times> real) list" where
  "stroke_points canvas es = List.map_filter (\<lambda>e. finite_point (getMousePos canvas e)) es"

definition one_subpath :: "(real \<times> real) list \<Rightarrow> (real \<times> real) list list" where
  "one_subpath pts = (if pts = [] then [] else [pts])"

fun current_tools :: "int \<times> string \<Rightarrow> event list \<Rightarrow> int \<times> string" where
  "current_tools t [] = t"
| "current_tools (w, c) (ClickColor c' # es) = current_tools (w, c') es"
| "current_tools (w, c) (ChangeWidth w' # es) = current_tools (w', c) es"
| "current_tools t (e # es) = current_tools t es"

text \<open>
  A stroke is in progress on a canvas of the geometry of \<open>canvas\<close>, and the path
  of the context is the points \<open>pts\<close>.
\<close>

definition stroke_state :: "canvas_el \<Rightarrow> (real \<times> real) list \<Rightarrow> app_state \<Rightarrow> bool" where
  "stroke_state canvas pts s =
     (isDrawing s \<and>
      (case canvasRef s of None \<Rightarrow> False
       | Some c \<Rightarrow>
           width c = width canvas \<and> height c = height canvas
           \<and> getBoundingClientRect c = getBoundingClientRect canvas
           \<and> (case getContext c of None \<Rightarrow> False
              | Some ctx \<Rightarrow> path ctx = one_subpath pts)))"

text \<open>What a session shows at its end, if it ends without an error.\<close>

definition outcome :: "(app_state \<Rightarrow> 'a) \<Rightarrow> error + app_state \<Rightarrow> 'a option" where
  "outcome f r = (case r of Inl err \<Rightarrow> None | Inr s \<Rightarrow> Some (f s))"

section \<open>Auxiliary facts\<close>

subsection \<open>Rounding to a double\<close>

declare expo_up.simps [simp del]
declare expo_down.simps [simp del]

lemma two_powi_Suc: "(2::real) powi (k + 1) = 2 * 2 powi k"
  by (simp add: power_int_add)

lemma expo_up_bounds:
  "1 \<le> a \<Longrightarrow> k \<le> expo_up a k \<and> 2 powi (expo_up a k - k) \<le> a \<and> a < 2 powi (expo_up a k - k + 1)"
proof (induction a k rule: expo_up.induct)
  case (1 a k)
  show ?case
  proof (cases "2 \<le> a")
    case True
    let ?e = "expo_up (a / 2) (k + 1)"
    have e: "expo_up a k = ?e" using True by (simp add: expo_up.simps [of a k])
    have ih: "k + 1 \<le> ?e \<and> 2 powi (?e - (k + 1)) \<le> a / 2 \<and> a / 2 < 2 powi (?e - (k + 1) + 1)"
      using "1.IH" [OF True] True by simp
    have s: "(2::real) powi (?e - k) = 2 * 2 powi (?e - (k + 1))"
      using two_powi_Suc [of "?e - (k + 1)"] by (simp add: algebra_simps)
    have s2: "(2::real) powi (?e - k + 1) = 2 * 2 powi (?e - (k + 1) + 1)"
      using two_powi_Suc [of "?e - (k + 1) + 1"] by (simp add: algebra_simps)
    show ?thesis unfolding e s s2 using ih by simp
  next
    case False
    then have "expo_up a k = k" by (simp add: expo_up.simps [of a k])
    then show ?thesis using False "1.prems" by simp
  qed
qed

lemma expo_down_bounds:
  "0 < a \<Longrightarrow> a < 2 \<Longrightarrow> - 1022 \<le> k \<Longrightarrow>
     - 1022 \<le> expo_down a k \<and> expo_down a k \<le> k
     \<and> a * 2 powi (k - expo_down a k) < 2
     \<and> (1 \<le> a * 2 powi (k - expo_down a k) \<or> expo_down a k = - 1022)"
proof (induction a k rule: expo_down.induct)
  case (1 a k)
  show ?case
  proof (cases "a < 1 \<and> - 1022 < k")
    case True
    let ?e = "expo_down (2 * a) (k - 1)"
    have e: "expo_down a k = ?e" using True by (simp add: expo_down.simps [of a k])
    have ih: "- 1022 \<le> ?e \<and> ?e \<le> k - 1
        \<and> 2 * a * 2 powi (k - 1 - ?e) < 2
        \<and> (1 \<le> 2 * a * 2 powi (k - 1 - ?e) \<or> ?e = - 1022)"
      using "1.IH" [OF True] True "1.prems" by simp
    have s: "(2::real) powi (k - ?e) = 2 * 2 powi (k - 1 - ?e)"
      using two_powi_Suc [of "k - 1 - ?e"] by (simp add: algebra_simps)
    show ?thesis unfolding e s using ih by (simp add: mult.assoc mult.left_commute)
  next
    case False
    then have "expo_down a k = k" by (auto simp: expo_down.simps [of a k])
    then show ?thesis using False "1.prems" by auto
  qed
qed

lemma exponent_bounds:
  assumes "0 < a"
  shows "- 1022 \<le> exponent a \<and> a < 2 powi (exponent a + 1)
         \<and> (2 powi (exponent a) \<le> a \<or> exponent a = - 1022)"
proof (cases "1 \<le> a")
  case True
  then show ?thesis using expo_up_bounds [OF True, of 0] by (simp add: exponent_def)
next
  case False
  let ?e = "expo_down a 0"
  have b: "- 1022 \<le> ?e \<and> ?e \<le> 0 \<and> a * 2 powi (0 - ?e) < 2
      \<and> (1 \<le> a * 2 powi (0 - ?e) \<or> ?e = - 1022)"
    using expo_down_bounds [of a 0] assms False by simp
  have inv: "(2::real) powi (0 - ?e) = 1 / 2 powi ?e"
    by (simp add: power_int_minus field_simps)
  have p: "0 < (2::real) powi ?e" by simp
  have up: "a < 2 powi (?e + 1)"
    using b p unfolding inv two_powi_Suc by (simp add: field_simps)
  have lo: "2 powi ?e \<le> a \<or> ?e = - 1022"
    using b p unfolding inv by (auto simp: field_simps)
  show ?thesis using False b up lo by (simp add: exponent_def)
qed

lemma exponent_eq:
  assumes "2 powi k \<le> a" and "a < 2 powi (k + 1)" and "- 1022 \<le> k"
  shows "exponent a = k"
proof -
  have "0 < (2::real) powi k" by simp
  then have pos: "0 < a" using assms(1) by linarith
  let ?e = "exponent a"
  note b = exponent_bounds [OF pos]
  have "(2::real) powi k < 2 powi (?e + 1)" using assms(1) b by linarith
  then have "k < ?e + 1"
    using power_int_increasing [of "?e + 1" k "2::real"] by (cases "k < ?e + 1") auto
  moreover have "?e \<le> k"
  proof (cases "2 powi ?e \<le> a")
    case True
    then have "(2::real) powi ?e < 2 powi (k + 1)" using assms(2) by linarith
    then have "?e < k + 1"
      using power_int_increasing [of "k + 1" ?e "2::real"] by (cases "?e < k + 1") auto
    then show ?thesis by simp
  next
    case False
    then show ?thesis using b assms(3) by simp
  qed
  ultimately show ?thesis by simp
qed

lemma exponent_subnormal:
  assumes "0 < a" and "a < 2 powi (- 1022)"
  shows "exponent a = - 1022"
proof -
  note b = exponent_bounds [OF assms(1)]
  show ?thesis
  proof (cases "2 powi (exponent a) \<le> a")
    case True
    then have "(2::real) powi (exponent a) < 2 powi (- 1022)" using assms(2) by linarith
    then have "exponent a < - 1022"
      using power_int_increasing [of "- 1022" "exponent a" "2::real"]
      by (cases "exponent a < - 1022") auto
    then show ?thesis using b by simp
  next
    case False
    then show ?thesis using b by simp
  qed
qed

lemma round_half_even_close: "\<bar>of_int (round_half_even m) - m\<bar> \<le> 1 / 2"
  by (simp add: round_half_even_def Let_def)

lemma round_half_even_of_int: "round_half_even (of_int i) = i"
  by (simp add: round_half_even_def Let_def)

text \<open>Evaluation at a value whose binade is known.\<close>

lemma round_magnitude_eval:
  assumes "2 powi k \<le> a" and "a < 2 powi (k + 1)" and "- 1022 \<le> k"
    and "round_half_even (a / 2 powi (k - 52)) = n"
    and "of_int n * 2 powi (k - 52) = r"
  shows "round_magnitude a = r"
  using assms(4,5) by (simp add: round_magnitude_def exponent_eq [OF assms(1-3)])

lemma double_round_eval:
  assumes "2 powi k \<le> \<bar>v\<bar>" and "\<bar>v\<bar> < 2 powi (k + 1)" and "- 1022 \<le> k"
    and "round_half_even (\<bar>v\<bar> / 2 powi (k - 52)) = n"
    and "of_int n * 2 powi (k - 52) = r" and "r < 2 ^ 1024"
  shows "double_round v = Some (if v < 0 then - r else r)"
proof -
  have "0 < (2::real) powi k" by simp
  then have "0 < \<bar>v\<bar>" using assms(1) by linarith
  then have nz: "v \<noteq> 0" by simp
  have m: "round_magnitude \<bar>v\<bar> = r"
    using assms(1-5) by (rule round_magnitude_eval)
  show ?thesis unfolding double_round_def m Let_def using nz assms(6) by simp
qed

lemma round_magnitude_close:
  assumes "0 < a"
  shows "\<bar>round_magnitude a - a\<bar> \<le> 2 powi (exponent a - 53)"
proof -
  let ?q = "(2::real) powi (exponent a - 52)"
  have q: "0 < ?q" by simp
  have h: "(2::real) powi (exponent a - 53) = ?q / 2"
    using two_powi_Suc [of "exponent a - 53"] by (simp add: algebra_simps)
  have "\<bar>of_int (round_half_even (a / ?q)) - a / ?q\<bar> \<le> 1 / 2"
    by (rule round_half_even_close)
  then have "\<bar>of_int (round_half_even (a / ?q)) - a / ?q\<bar> * ?q \<le> 1 / 2 * ?q"
    using q by (intro mult_right_mono) auto
  moreover have "\<bar>of_int (round_half_even (a / ?q)) - a / ?q\<bar> * ?q
      = \<bar>of_int (round_half_even (a / ?q)) * ?q - a\<bar>"
  proof -
    have "\<bar>of_int (round_half_even (a / ?q)) - a / ?q\<bar> * ?q
        = \<bar>(of_int (round_half_even (a / ?q)) - a / ?q) * ?q\<bar>"
      using q by (simp add: abs_mult)
    also have "(of_int (round_half_even (a / ?q)) - a / ?q) * ?q
        = of_int (round_half_even (a / ?q)) * ?q - a"
      using q by (simp add: field_simps)
    finally show ?thesis .
  qed
  ultimately show ?thesis unfolding h by (simp add: round_magnitude_def Let_def)
qed

lemma round_magnitude_error:
  assumes "2 powi (- 1022) \<le> a"
  shows "\<bar>round_magnitude a - a\<bar> \<le> a / 2 ^ 53"
proof -
  have "0 < (2::real) powi (- 1022)" by (rule zero_less_power_int) simp
  then have pos: "0 < a" using assms by linarith
  have lo: "2 powi (exponent a) \<le> a"
    using exponent_bounds [OF pos] assms by auto
  have "(2::real) powi (exponent a - 53) = 2 powi (exponent a) / 2 ^ 53"
    by (simp add: power_int_diff)
  also have "\<dots> \<le> a / 2 ^ 53" using lo by (simp add: divide_right_mono)
  finally show ?thesis using round_magnitude_close [OF pos] by linarith
qed

lemma double_round_zero: "double_round 0 = Some 0"
  by (simp add: double_round_def)

lemma double_round_error:
  assumes "v = 0 \<or> (2 powi (- 1022) \<le> \<bar>v\<bar> \<and> \<bar>v\<bar> \<le> 2 powi 1023)"
  shows "\<exists>r. double_round v = Some r \<and> \<bar>r - v\<bar> \<le> \<bar>v\<bar> / 2 ^ 53"
proof (cases "v = 0")
  case True
  then show ?thesis by (simp add: double_round_zero)
next
  case False
  then have lo: "2 powi (- 1022) \<le> \<bar>v\<bar>" and hi: "\<bar>v\<bar> \<le> 2 powi 1023"
    using assms by auto
  let ?r = "round_magnitude \<bar>v\<bar>"
  have e: "\<bar>?r - \<bar>v\<bar>\<bar> \<le> \<bar>v\<bar> / 2 ^ 53"
    using round_magnitude_error [OF lo] .
  have "?r \<le> \<bar>v\<bar> + \<bar>v\<bar> / 2 ^ 53" using e by linarith
  also have "\<dots> \<le> 2 powi 1023 + 2 powi 1023 / 2 ^ 53"
    using hi by (intro add_mono divide_right_mono) auto
  also have "\<dots> < 2 ^ 1024" by simp
  finally have no: "\<not> 2 ^ 1024 \<le> ?r" by simp
  have d: "double_round v = Some (if v < 0 then - ?r else ?r)"
    using False no by (simp add: double_round_def Let_def)
  have "\<bar>(if v < 0 then - ?r else ?r) - v\<bar> = \<bar>?r - \<bar>v\<bar>\<bar>"
    by (cases "v < 0") auto
  then show ?thesis using d e by simp
qed

lemma double_round_of_int:
  assumes "\<bar>n\<bar> < 2 ^ 53"
  shows "double_round (of_int n) = Some (of_int n)"
proof (cases "n = 0")
  case True
  then show ?thesis by (simp add: double_round_zero)
next
  case False
  define a where "a = real_of_int \<bar>n\<bar>"
  have a1: "1 \<le> a" using False unfolding a_def by linarith
  have pos: "0 < a" using a1 by linarith
  define e where "e = exponent a"
  note b = exponent_bounds [OF pos, folded e_def]
  have "(2::real) powi 0 < 2 powi (e + 1)" using a1 b by simp
  then have e0: "0 \<le> e"
    using power_int_increasing [of "e + 1" 0 "2::real"] by (cases "0 < e + 1") auto
  have lo: "2 powi e \<le> a" using b e0 by auto
  have a53: "a < 2 ^ 53"
    unfolding a_def using assms by (metis of_int_less_numeral_power_cancel_iff)
  then have "(2::real) powi e < 2 powi 53" using lo by simp
  then have e52: "e \<le> 52"
    using power_int_increasing [of 53 e "2::real"] by (cases "e < 53") auto
  define j where "j = nat (52 - e)"
  have q: "(2::real) powi (e - 52) = 1 / 2 ^ j"
    using e52 by (simp add: j_def power_int_def field_simps)
  have "a / 2 powi (e - 52) = of_int (\<bar>n\<bar> * 2 ^ j)"
    unfolding q a_def by simp
  then have "round_half_even (a / 2 powi (e - 52)) = \<bar>n\<bar> * 2 ^ j"
    using round_half_even_of_int [of "\<bar>n\<bar> * 2 ^ j"] by simp
  then have "of_int (round_half_even (a / 2 powi (e - 52))) * 2 powi (e - 52) = a"
    unfolding q a_def by simp
  then have m: "round_magnitude a = a"
    unfolding round_magnitude_def Let_def e_def .
  have ab: "\<bar>real_of_int n\<bar> = a" unfolding a_def by simp
  have big: "\<not> 2 ^ 1024 \<le> a"
    using a53 by simp
  have nz: "real_of_int n \<noteq> 0" using False by simp
  have sg: "(if real_of_int n < 0 then - a else a) = real_of_int n"
    unfolding a_def by simp
  show ?thesis
    unfolding double_round_def ab m Let_def using nz big sg by simp
qed

lemma double_round_numeral:
  "\<bar>numeral w :: int\<bar> < 2 ^ 53 \<Longrightarrow> double_round (numeral w) = Some (numeral w)"
  using double_round_of_int [of "numeral w"] by simp

lemma double_round_one: "double_round 1 = Some 1"
  using double_round_of_int [of 1] by simp

lemmas double_exact = double_round_numeral double_round_one double_round_zero

lemma in_range_normal:
  assumes "in_range v"
  shows "v = 0 \<or> (2 powi (- 1022) \<le> \<bar>v\<bar> \<and> \<bar>v\<bar> \<le> 2 powi 1023)"
proof -
  have "(2::real) powi (- 1022) \<le> 2 powi (- 1021)" by (rule power_int_increasing) simp_all
  moreover have "(2::real) powi 1022 \<le> 2 powi 1023" by (rule power_int_increasing) simp_all
  ultimately show ?thesis using assms unfolding in_range_def by linarith
qed

lemma product_of_rounded:
  fixes d sc d1 s1 u :: real
  assumes u: "0 \<le> u" "u \<le> 1 / 4"
    and d1: "\<bar>d1 - d\<bar> \<le> \<bar>d\<bar> * u" and s1: "\<bar>s1 - sc\<bar> \<le> \<bar>sc\<bar> * u"
  shows "\<bar>d1 * s1\<bar> \<le> \<bar>d * sc\<bar> * (1 + u)\<^sup>2"
    and "\<bar>d * sc\<bar> * (1 - u)\<^sup>2 \<le> \<bar>d1 * s1\<bar>"
    and "\<bar>d1 * s1 - d * sc\<bar> \<le> \<bar>d * sc\<bar> * (u * (1 + u) + u)"
proof -
  define A where "A = \<bar>d\<bar>"
  define B where "B = \<bar>sc\<bar>"
  have A0: "0 \<le> A" and B0: "0 \<le> B" by (simp_all add: A_def B_def)
  have dU: "\<bar>d1\<bar> \<le> A * (1 + u)" and dL: "A * (1 - u) \<le> \<bar>d1\<bar>"
    using d1 unfolding A_def by (simp_all add: algebra_simps)
  have sU: "\<bar>s1\<bar> \<le> B * (1 + u)" and sL: "B * (1 - u) \<le> \<bar>s1\<bar>"
    using s1 unfolding B_def by (simp_all add: algebra_simps)
  have AB: "\<bar>d * sc\<bar> = A * B" by (simp add: A_def B_def abs_mult)
  have "\<bar>d1 * s1\<bar> = \<bar>d1\<bar> * \<bar>s1\<bar>" by (simp add: abs_mult)
  also have "\<dots> \<le> (A * (1 + u)) * (B * (1 + u))"
    using dU sU by (intro mult_mono) (use A0 u in auto)
  also have "\<dots> = A * B * (1 + u)\<^sup>2" by (simp add: power2_eq_square algebra_simps)
  finally show "\<bar>d1 * s1\<bar> \<le> \<bar>d * sc\<bar> * (1 + u)\<^sup>2" unfolding AB .
  have "A * B * (1 - u)\<^sup>2 = (A * (1 - u)) * (B * (1 - u))"
    by (simp add: power2_eq_square algebra_simps)
  also have "\<dots> \<le> \<bar>d1\<bar> * \<bar>s1\<bar>"
    using dL sL by (intro mult_mono) (use A0 B0 u in auto)
  also have "\<dots> = \<bar>d1 * s1\<bar>" by (simp add: abs_mult)
  finally show "\<bar>d * sc\<bar> * (1 - u)\<^sup>2 \<le> \<bar>d1 * s1\<bar>" unfolding AB .
  have "d1 * s1 - d * sc = d1 * (s1 - sc) + (d1 - d) * sc" by (simp add: algebra_simps)
  then have "\<bar>d1 * s1 - d * sc\<bar> \<le> \<bar>d1 * (s1 - sc)\<bar> + \<bar>(d1 - d) * sc\<bar>"
    using abs_triangle_ineq [of "d1 * (s1 - sc)" "(d1 - d) * sc"] by simp
  also have "\<dots> = \<bar>d1\<bar> * \<bar>s1 - sc\<bar> + \<bar>d1 - d\<bar> * B" by (simp add: abs_mult B_def)
  also have "\<dots> \<le> (A * (1 + u)) * (B * u) + (A * u) * B"
    using dU s1 d1 unfolding A_def [symmetric] B_def [symmetric]
    by (intro add_mono mult_mono) (use A0 B0 u in auto)
  also have "\<dots> = A * B * (u * (1 + u) + u)" by (simp add: algebra_simps)
  finally show "\<bar>d1 * s1 - d * sc\<bar> \<le> \<bar>d * sc\<bar> * (u * (1 + u) + u)" unfolding AB .
qed

lemma scaled_coordinate_error:
  assumes "dw \<noteq> 0" and "in_range (c - l)" and "in_range (w / dw)"
    and "in_range ((c - l) * (w / dw))"
  shows "\<exists>r. js_mul (js_sub c l) (js_div w dw) = Some r
           \<and> \<bar>r - (c - l) * w / dw\<bar> \<le> ((1 + 1 / 2 ^ 53) ^ 3 - 1) * \<bar>(c - l) * w / dw\<bar>"
proof -
  define u :: real where "u = 1 / 2 ^ 53"
  define d where "d = c - l"
  define sc where "sc = w / dw"
  have u: "0 \<le> u" "u \<le> 1 / 4" by (simp_all add: u_def)
  obtain d1 where d1: "double_round d = Some d1" and e1: "\<bar>d1 - d\<bar> \<le> \<bar>d\<bar> * u"
    using double_round_error [OF in_range_normal [OF assms(2)]] by (auto simp: d_def u_def)
  obtain s1 where s1: "double_round sc = Some s1" and e2: "\<bar>s1 - sc\<bar> \<le> \<bar>sc\<bar> * u"
    using double_round_error [OF in_range_normal [OF assms(3)]] by (auto simp: sc_def u_def)
  note pr = product_of_rounded [OF u e1 e2]
  have rng: "d1 * s1 = 0 \<or> (2 powi (- 1022) \<le> \<bar>d1 * s1\<bar> \<and> \<bar>d1 * s1\<bar> \<le> 2 powi 1023)"
  proof (cases "d * sc = 0")
    case True
    then have z: "\<bar>d * sc\<bar> = 0" by simp
    have "\<bar>d1 * s1\<bar> \<le> 0" using pr(1) unfolding z by simp
    then show ?thesis by simp
  next
    case False
    then have lo: "2 powi (- 1021) \<le> \<bar>d * sc\<bar>" and hi: "\<bar>d * sc\<bar> \<le> 2 powi 1022"
      using assms(4) by (auto simp: in_range_def d_def sc_def)
    have "1 - u \<ge> 3 / 4" using u by simp
    then have "(3 / 4)\<^sup>2 \<le> (1 - u)\<^sup>2" by (intro power_mono) auto
    then have h1: "1 / 2 \<le> (1 - u)\<^sup>2" by (simp add: power2_eq_square)
    have "1 + u \<le> 5 / 4" using u by simp
    then have "(1 + u)\<^sup>2 \<le> (5 / 4)\<^sup>2" using u by (intro power_mono) auto
    then have h2: "(1 + u)\<^sup>2 \<le> 2" by (simp add: power2_eq_square)
    have "(2::real) powi (- 1022) = 2 powi (- 1021) * (1 / 2)"
      by (simp add: power_int_minus)
    also have "\<dots> \<le> \<bar>d * sc\<bar> * (1 - u)\<^sup>2"
      using lo h1 by (intro mult_mono) auto
    finally have a: "2 powi (- 1022) \<le> \<bar>d1 * s1\<bar>" using pr(2) by linarith
    have "\<bar>d1 * s1\<bar> \<le> \<bar>d * sc\<bar> * (1 + u)\<^sup>2" by (rule pr(1))
    also have "\<dots> \<le> 2 powi 1022 * 2"
      using hi h2 by (intro mult_mono) auto
    also have "\<dots> = (2::real) powi 1023" by simp
    finally show ?thesis using a by simp
  qed
  obtain r where r: "double_round (d1 * s1) = Some r" and e3: "\<bar>r - d1 * s1\<bar> \<le> \<bar>d1 * s1\<bar> * u"
    using double_round_error [OF rng] by (auto simp: u_def)
  have js: "js_mul (js_sub c l) (js_div w dw) = Some r"
    using assms(1) d1 s1 r by (simp add: js_mul_def js_sub_def js_div_def d_def sc_def)
  have "\<bar>r - d * sc\<bar> \<le> \<bar>r - d1 * s1\<bar> + \<bar>d1 * s1 - d * sc\<bar>" by simp
  also have "\<dots> \<le> \<bar>d * sc\<bar> * (1 + u)\<^sup>2 * u + \<bar>d * sc\<bar> * (u * (1 + u) + u)"
  proof -
    have "\<bar>d1 * s1\<bar> * u \<le> \<bar>d * sc\<bar> * (1 + u)\<^sup>2 * u"
      using pr(1) u by (intro mult_right_mono) auto
    then show ?thesis using e3 pr(3) by linarith
  qed
  also have "\<dots> = ((1 + u) ^ 3 - 1) * \<bar>d * sc\<bar>"
    by (simp add: power2_eq_square power3_eq_cube algebra_simps)
  finally have "\<bar>r - d * sc\<bar> \<le> ((1 + u) ^ 3 - 1) * \<bar>d * sc\<bar>" .
  moreover have "(c - l) * w / dw = d * sc" by (simp add: d_def sc_def)
  ultimately show ?thesis using js unfolding u_def by auto
qed

lemma scale_302: "double_round (800 / 302) = Some (2982516309516885 / 1125899906842624)"
  using double_round_eval [of 1 "800 / 302" 5965032619033770 "2982516309516885 / 1125899906842624"]
  by (simp add: round_half_even_def Let_def)

lemma scale_220: "double_round (600 / 220) = Some (6141272219141585 / 2251799813685248)"
  using double_round_eval [of 1 "600 / 220" 6141272219141585 "6141272219141585 / 2251799813685248"]
  by (simp add: round_half_even_def Let_def)

lemma product_151:
  "double_round (151 * (2982516309516885 / 1125899906842624)) = Some (400 + 1 / 2 ^ 44)"
  using double_round_eval [of 8 "151 * (2982516309516885 / 1125899906842624)" 7036874417766401
      "400 + 1 / 2 ^ 44"]
  by (simp add: round_half_even_def Let_def)

lemma product_11:
  "double_round (11 * (6141272219141585 / 2251799813685248)) = Some (30 - 1 / 2 ^ 48)"
  using double_round_eval [of 4 "11 * (6141272219141585 / 2251799813685248)" 8444249301319679
      "30 - 1 / 2 ^ 48"]
  by (simp add: round_half_even_def Let_def)

lemma getMousePos_scaled:
  "getMousePos scaled_canvas (pointer_at 151 11)
     = \<lparr>x = Some (400 + 1 / 2 ^ 44), y = Some (30 - 1 / 2 ^ 48)\<rparr>"
proof -
  have sx: "js_sub 151 0 = Some 151" and sy: "js_sub 11 0 = Some 11"
    by (simp_all add: js_sub_def double_exact)
  have dx: "js_div 800 302 = Some (2982516309516885 / 1125899906842624)"
    unfolding js_div_def using scale_302 by simp
  have dy: "js_div 600 220 = Some (6141272219141585 / 2251799813685248)"
    unfolding js_div_def using scale_220 by simp
  have mx: "js_mul (Some 151) (Some (2982516309516885 / 1125899906842624))
      = Some (400 + 1 / 2 ^ 44)"
    unfolding js_mul_def using product_151 by simp
  have my: "js_mul (Some 11) (Some (6141272219141585 / 2251799813685248))
      = Some (30 - 1 / 2 ^ 48)"
    unfolding js_mul_def using product_11 by simp
  have "getMousePos scaled_canvas (pointer_at 151 11)
      = \<lparr>x = js_mul (js_sub 151 0) (js_div 800 302), y = js_mul (js_sub 11 0) (js_div 600 220)\<rparr>"
    by (simp add: getMousePos_def scaled_canvas_def initial_canvas_def pointer_at_def Let_def)
  then show ?thesis unfolding sx sy dx dy mx my .
qed

subsection \<open>Handlers and sessions\<close>

lemmas handler_defs = startDrawing_def draw_def endDrawing_def undo_def redo_def clearCanvas_def
  loadHistoryState_def img_onload_def setColor_def setStrokeWidth_def getMousePos_def
  js_sub_def js_div_def js_mul_def double_exact js_slice_def js_index_def beginPath_def moveTo_def lineTo_def
  stroke_def clearRect_def drawImage_def toDataURL_def finite_point_def

lemmas example_defs = initial_state_def initial_canvas_def initial_ctx_def pointer_at_def
  three_strokes_def stroke_and_leave_def after_three_strokes_def snap1_def snap2_def snap3_def
  mid_stroke_def mid_stroke_change_def mid_stroke_pixels_def
  before_undo_session_def undo_redo_session_def stale_load_session_def
  stale_pending_def scaled_canvas_def

text \<open>The example states are states of real sessions.\<close>

lemma run_three_strokes: "run three_strokes initial_state = Inr after_three_strokes"
  by (simp add: example_defs handler_defs Let_def)

lemma run_mid_stroke:
  "run [MouseDown (pointer_at 10 10), MouseMove (pointer_at 20 10), ClickColor ''#FF0000'']
     initial_state = Inr mid_stroke"
  by (simp add: example_defs handler_defs Let_def)

lemma run_stale_pending:
  "run (three_strokes @ [MouseOut, ClickUndo, ClickUndo, ImgLoad 1]) initial_state
     = Inr stale_pending"
  by (simp add: example_defs handler_defs Let_def)

lemma js_slice_prefix:
  assumes "- 1 \<le> i" and "i \<le> int (length xs) - 1"
  shows "js_slice xs 0 (i + 1) = take (nat (i + 1)) xs"
  using assms by (simp add: js_slice_def Let_def min_def)

lemma undo_total:
  assumes "history_inv s"
  shows "\<exists>s'. undo s = Inr s'"
  using assms
  by (auto simp: undo_def loadHistoryState_def js_index_def history_inv_def
      split: option.splits)

lemma redo_total:
  assumes "history_inv s"
  shows "\<exists>s'. redo s = Inr s'"
  using assms
  by (auto simp: redo_def loadHistoryState_def js_index_def history_inv_def
      split: option.splits)

lemma undo_fields:
  assumes "undo s = Inr s'"
  shows "history s' = history s \<and> canvasRef s' = canvasRef s \<and> isDrawing s' = isDrawing s
    \<and> (historyIndex s' = historyIndex s
       \<or> (0 < historyIndex s \<and> historyIndex s' = historyIndex s - 1))"
  using assms
  by (auto simp: undo_def loadHistoryState_def split: if_splits option.splits)

lemma redo_fields:
  assumes "redo s = Inr s'"
  shows "history s' = history s \<and> canvasRef s' = canvasRef s \<and> isDrawing s' = isDrawing s
    \<and> (historyIndex s' = historyIndex s
       \<or> (historyIndex s < int (length (history s)) - 1
          \<and> historyIndex s' = historyIndex s + 1))"
  using assms
  by (auto simp: redo_def loadHistoryState_def split: if_splits option.splits)

lemma undo_inv:
  assumes "history_inv s" and "undo s = Inr s'"
  shows "history_inv s'"
  using assms undo_fields [OF assms(2)] by (auto simp: history_inv_def)

lemma redo_inv:
  assumes "history_inv s" and "redo s = Inr s'"
  shows "history_inv s'"
  using assms redo_fields [OF assms(2)] by (auto simp: history_inv_def)

lemma endDrawing_inv:
  assumes "history_inv s"
  shows "history_inv (endDrawing s)"
  using assms
  by (auto simp: endDrawing_def history_inv_def js_slice_def Let_def split: option.splits)

lemma clearCanvas_inv:
  assumes "history_inv s"
  shows "history_inv (clearCanvas s)"
  using assms
  by (auto simp: clearCanvas_def history_inv_def split: option.splits)

lemma lineTo_path_tools:
  "path (lineTo (c\<lparr>lineWidth := w, strokeStyle := st\<rparr>) p) = path (lineTo c p)"
  by (simp add: lineTo_def split: option.splits)

lemma zip_snoc_shift:
  "zip (a # as @ [q]) (as @ [q]) = zip (a # as) as @ [(last (a # as), q)]"
  by (induction as arbitrary: a) auto

lemma zip_tl_snoc: "set (zip sub (tl sub)) \<subseteq> set (zip (sub @ [q]) (tl (sub @ [q])))"
proof (cases sub)
  case Nil
  then show ?thesis by simp
next
  case (Cons a as)
  then show ?thesis using zip_snoc_shift [of a as q] by auto
qed

lemma segments_lineTo: "set (segments (path c)) \<subseteq> set (segments (path (lineTo c p)))"
proof (cases "finite_point p")
  case None
  then show ?thesis by (simp add: lineTo_def)
next
  case (Some q)
  show ?thesis
  proof (cases "path c = []")
    case True
    then show ?thesis by (simp add: lineTo_def Some segments_def)
  next
    case False
    then have p: "path c = butlast (path c) @ [last (path c)]" by simp
    have "set (segments (butlast (path c) @ [last (path c)]))
        \<subseteq> set (segments (butlast (path c) @ [last (path c) @ [q]]))"
      using zip_tl_snoc [of "last (path c)" q] by (auto simp: segments_def)
    then show ?thesis using False Some p by (simp add: lineTo_def)
  qed
qed

lemma img_onload_fields:
  "history (img_onload k s) = history s \<and> historyIndex (img_onload k s) = historyIndex s
   \<and> strokeWidth (img_onload k s) = strokeWidth s \<and> color (img_onload k s) = color s
   \<and> isDrawing (img_onload k s) = isDrawing s
   \<and> surface_ready (img_onload k s) = surface_ready s"
  by (auto simp: img_onload_def Let_def surface_ready_def split: option.splits)

lemma img_onload_head:
  assumes "canvasRef s = Some canvas" and "loading s = img # rest"
  shows "img_onload 0 s = s\<lparr>canvasRef := Some (canvas\<lparr>pixels := img\<rparr>), loading := rest\<rparr>"
  using assms by (simp add: img_onload_def Let_def clearRect_def drawImage_def)

lemma loads_in_order_last:
  assumes "canvasRef s = Some canvas" and "length (loading s) = Suc n"
  shows "loads_in_order (Suc n) s
           = s\<lparr>canvasRef := Some (canvas\<lparr>pixels := last (loading s)\<rparr>), loading := []\<rparr>"
  using assms
proof (induction n arbitrary: s canvas)
  case 0
  then obtain img where l: "loading s = [img]"
    by (cases "loading s") auto
  show ?case using img_onload_head [OF "0.prems"(1) l] l by simp
next
  case (Suc n)
  then obtain img rest where l: "loading s = img # rest" and r: "length rest = Suc n"
    by (cases "loading s") auto
  let ?s1 = "img_onload 0 s"
  have s1: "?s1 = s\<lparr>canvasRef := Some (canvas\<lparr>pixels := img\<rparr>), loading := rest\<rparr>"
    using img_onload_head [OF Suc.prems(1) l] .
  have c1: "canvasRef ?s1 = Some (canvas\<lparr>pixels := img\<rparr>)" and l1: "length (loading ?s1) = Suc n"
    using r by (simp_all add: s1)
  have "loads_in_order (Suc (Suc n)) s = loads_in_order (Suc n) ?s1" by simp
  also have "\<dots> = ?s1\<lparr>canvasRef := Some (canvas\<lparr>pixels := img, pixels := last (loading ?s1)\<rparr>), loading := []\<rparr>"
    using Suc.IH [OF c1 l1] by simp
  also have "\<dots> = s\<lparr>canvasRef := Some (canvas\<lparr>pixels := last (loading s)\<rparr>), loading := []\<rparr>"
    using r l by (auto simp: s1)
  finally show ?case .
qed

lemma all_loaded_last:
  assumes "canvasRef s = Some canvas" and "loading s \<noteq> []"
  shows "all_loaded s = s\<lparr>canvasRef := Some (canvas\<lparr>pixels := last (loading s)\<rparr>), loading := []\<rparr>"
proof -
  obtain n where "length (loading s) = Suc n"
    using assms(2) by (cases "loading s") auto
  then show ?thesis using loads_in_order_last [OF assms(1)] by (simp add: all_loaded_def)
qed

lemma all_loaded_none: "loading s = [] \<Longrightarrow> all_loaded s = s"
  by (simp add: all_loaded_def)

lemma undo_in_step:
  assumes "history_inv s" and "surface_ready s" and "in_step s" and "undo s = Inr s'"
  shows "in_step s'"
  using assms
  by (auto simp: undo_def loadHistoryState_def in_step_def js_index_def history_inv_def
      surface_ready_def surface_def split: if_splits option.splits)

lemma redo_in_step:
  assumes "history_inv s" and "surface_ready s" and "in_step s" and "redo s = Inr s'"
  shows "in_step s'"
  using assms
  by (auto simp: redo_def loadHistoryState_def in_step_def js_index_def history_inv_def
      surface_ready_def surface_def split: if_splits option.splits)

lemma img_onload_in_step:
  assumes "surface_ready s" and "in_step s"
  shows "in_step (img_onload 0 s)"
proof (cases "loading s")
  case Nil
  then show ?thesis using assms(2) by (simp add: img_onload_def)
next
  case (Cons img rest)
  obtain canvas where c: "canvasRef s = Some canvas"
    using assms(1) by (auto simp: surface_ready_def split: option.splits)
  show ?thesis
    using assms(2) unfolding img_onload_head [OF c Cons]
    by (auto simp: in_step_def surface_def Cons split: option.splits if_splits)
qed

lemma img_onload_inv: "history_inv (img_onload k s) = history_inv s"
  by (simp add: history_inv_def img_onload_fields)

lemma in_step_shown:
  assumes "surface_ready s" and "in_step s"
  shows "js_index (history s) (historyIndex s) = Some (history s ! nat (historyIndex s))
         \<and> shown_when_loaded s = dataURL (history s ! nat (historyIndex s))"
proof -
  obtain canvas where c: "canvasRef s = Some canvas"
    using assms(1) by (auto simp: surface_ready_def split: option.splits)
  have i: "js_index (history s) (historyIndex s) = Some (history s ! nat (historyIndex s))"
    using assms(2) by (auto simp: in_step_def js_index_def split: if_splits)
  show ?thesis
  proof (cases "loading s = []")
    case True
    then show ?thesis using assms(2) i
      by (simp add: shown_when_loaded_def all_loaded_none in_step_def)
  next
    case False
    then show ?thesis using assms(2) i all_loaded_last [OF c False]
      by (simp add: shown_when_loaded_def in_step_def surface_def)
  qed
qed

lemma run_in_step:
  assumes "history_inv s" and "surface_ready s" and "in_step s"
    and "set evs \<subseteq> {ClickUndo, ClickRedo, ImgLoad 0}"
  shows "\<exists>s'. run evs s = Inr s' \<and> history_inv s' \<and> surface_ready s' \<and> in_step s'"
  using assms
proof (induction evs arbitrary: s)
  case Nil
  then show ?case by simp
next
  case (Cons e evs)
  from Cons.prems(4) have e: "e = ClickUndo \<or> e = ClickRedo \<or> e = ImgLoad 0"
    and rest: "set evs \<subseteq> {ClickUndo, ClickRedo, ImgLoad 0}"
    by auto
  have "\<exists>s1. handle e s = Inr s1 \<and> history_inv s1 \<and> surface_ready s1 \<and> in_step s1"
  proof -
    consider "e = ClickUndo" | "e = ClickRedo" | "e = ImgLoad 0" using e by blast
    then show ?thesis
    proof cases
      case 1
      obtain s1 where u: "undo s = Inr s1" using undo_total [OF Cons.prems(1)] by blast
      have "surface_ready s1"
        using undo_fields [OF u] Cons.prems(2) by (simp add: surface_ready_def)
      then show ?thesis
        using 1 u undo_inv [OF Cons.prems(1) u] undo_in_step [OF Cons.prems(1-3) u] by simp
    next
      case 2
      obtain s1 where u: "redo s = Inr s1" using redo_total [OF Cons.prems(1)] by blast
      have "surface_ready s1"
        using redo_fields [OF u] Cons.prems(2) by (simp add: surface_ready_def)
      then show ?thesis
        using 2 u redo_inv [OF Cons.prems(1) u] redo_in_step [OF Cons.prems(1-3) u] by simp
    next
      case 3
      then show ?thesis
        using Cons.prems(1-3) img_onload_in_step [of s]
        by (simp add: img_onload_inv img_onload_fields)
    qed
  qed
  then obtain s1 where h: "handle e s = Inr s1" and p: "history_inv s1" "surface_ready s1" "in_step s1"
    by blast
  show ?case using Cons.IH [OF p rest] h by simp
qed

lemma stroke_points_append:
  "stroke_points canvas (es @ fs) = stroke_points canvas es @ stroke_points canvas fs"
  by (simp add: stroke_points_def map_filter_def)

lemma stroke_points_one:
  "stroke_points canvas [e] = (case finite_point (getMousePos canvas e) of None \<Rightarrow> [] | Some q \<Rightarrow> [q])"
  by (simp add: stroke_points_def map_filter_def split: option.splits)

lemma getMousePos_geometry:
  assumes "width c = width canvas" and "height c = height canvas"
    and "getBoundingClientRect c = getBoundingClientRect canvas"
  shows "getMousePos c e = getMousePos canvas e"
  using assms by (simp add: getMousePos_def)

lemma lineTo_one_subpath:
  assumes "path ctx = one_subpath pts"
  shows "path (lineTo ctx p) = one_subpath (pts @ (case finite_point p of None \<Rightarrow> [] | Some q \<Rightarrow> [q]))"
  using assms by (auto simp: lineTo_def one_subpath_def split: option.splits)

lemma lineTo_tools:
  "lineWidth (lineTo c p) = lineWidth c \<and> strokeStyle (lineTo c p) = strokeStyle c"
  by (simp add: lineTo_def split: option.splits)

lemma segments_one_subpath: "segments (one_subpath pts) = zip pts (tl pts)"
  by (simp add: segments_def one_subpath_def)

lemma startDrawing_stroke_state:
  assumes "canvasRef s = Some canvas" and "getContext canvas = Some ctx"
  shows "stroke_state canvas (stroke_points canvas [e0]) (startDrawing e0 s)
         \<and> strokeWidth (startDrawing e0 s) = strokeWidth s
         \<and> color (startDrawing e0 s) = color s
         \<and> surface (startDrawing e0 s) = surface s"
  using assms
  by (auto simp: startDrawing_def stroke_state_def Let_def beginPath_def moveTo_def
      one_subpath_def stroke_points_one surface_def split: option.splits)

lemma draw_stroke_state:
  assumes "stroke_state canvas pts s"
  shows "stroke_state canvas (pts @ stroke_points canvas [e]) (draw e s)
         \<and> strokeWidth (draw e s) = strokeWidth s \<and> color (draw e s) = color s
         \<and> surface (draw e s) =
             surface s @ [\<lparr>paint_path = one_subpath (pts @ stroke_points canvas [e]),
                            paint_width = strokeWidth s, paint_style = color s\<rparr>]"
proof -
  obtain c ctx where c: "canvasRef s = Some c" and g: "getContext c = Some ctx"
    and d: "isDrawing s" and p: "path ctx = one_subpath pts"
    and geo: "width c = width canvas" "height c = height canvas"
      "getBoundingClientRect c = getBoundingClientRect canvas"
    using assms by (auto simp: stroke_state_def split: option.splits)
  have m: "getMousePos c e = getMousePos canvas e"
    using geo by (rule getMousePos_geometry)
  have q: "path (lineTo ctx (getMousePos canvas e)) = one_subpath (pts @ stroke_points canvas [e])"
    using lineTo_one_subpath [OF p] by (simp add: stroke_points_one)
  show ?thesis
    using c g d geo q
    by (simp add: draw_def Let_def m stroke_def stroke_state_def surface_def lineTo_path_tools
        lineTo_tools)
qed

lemma stroke_run:
  assumes "list_all stroke_event evs" and "stroke_state canvas pts s"
  shows "\<exists>s'. run evs s = Inr s'
           \<and> stroke_state canvas (pts @ stroke_points canvas (moves_of evs)) s'
           \<and> (strokeWidth s', color s') = current_tools (strokeWidth s, color s) evs"
  using assms
proof (induction evs arbitrary: s pts)
  case Nil
  then show ?case by (simp add: stroke_points_def map_filter_def)
next
  case (Cons ev evs)
  from Cons.prems(1) have rest: "list_all stroke_event evs" and se: "stroke_event ev"
    by simp_all
  show ?case
  proof (cases ev)
    case (MouseMove e)
    note d = draw_stroke_state [OF Cons.prems(2), of e]
    obtain s' where r: "run evs (draw e s) = Inr s'"
      and st: "stroke_state canvas ((pts @ stroke_points canvas [e]) @ stroke_points canvas (moves_of evs)) s'"
      and t: "(strokeWidth s', color s') = current_tools (strokeWidth (draw e s), color (draw e s)) evs"
      using Cons.IH [OF rest, of "pts @ stroke_points canvas [e]" "draw e s"] d by blast
    have "stroke_points canvas (moves_of (ev # evs))
        = stroke_points canvas [e] @ stroke_points canvas (moves_of evs)"
      using stroke_points_append [of canvas "[e]" "moves_of evs"] by (simp add: MouseMove)
    then show ?thesis using r st t d by (simp add: MouseMove)
  next
    case (ClickColor c)
    have st0: "stroke_state canvas pts (setColor c s)"
      using Cons.prems(2) by (simp add: stroke_state_def setColor_def)
    show ?thesis
      using Cons.IH [OF rest st0] by (simp add: ClickColor setColor_def)
  next
    case (ChangeWidth w)
    have st0: "stroke_state canvas pts (setStrokeWidth w s)"
      using Cons.prems(2) by (simp add: stroke_state_def setStrokeWidth_def)
    show ?thesis
      using Cons.IH [OF rest st0] by (simp add: ChangeWidth setStrokeWidth_def)
  qed (use se in simp_all)
qed

text \<open>
  Every session of the mounted component runs without an error, and every state it
  reaches has the history invariant and an available surface.
\<close>

lemma handle_keeps_ready:
  assumes "history_inv s" and "surface_ready s"
  shows "\<exists>s'. handle e s = Inr s' \<and> history_inv s' \<and> surface_ready s'"
proof (cases e)
  case (MouseDown m)
  then show ?thesis using assms
    by (auto simp: startDrawing_def Let_def history_inv_def surface_ready_def
        split: option.splits)
next
  case (MouseMove m)
  then show ?thesis using assms
    by (auto simp: draw_def Let_def history_inv_def surface_ready_def split: option.splits)
next
  case MouseUp
  then show ?thesis using assms endDrawing_inv [OF assms(1)]
    by (auto simp: endDrawing_def Let_def surface_ready_def split: option.splits)
next
  case MouseOut
  then show ?thesis using assms endDrawing_inv [OF assms(1)]
    by (auto simp: endDrawing_def Let_def surface_ready_def split: option.splits)
next
  case ClickUndo
  obtain s' where u: "undo s = Inr s'" using undo_total [OF assms(1)] by blast
  then show ?thesis using ClickUndo undo_inv [OF assms(1) u] undo_fields [OF u] assms(2)
    by (simp add: surface_ready_def)
next
  case ClickRedo
  obtain s' where u: "redo s = Inr s'" using redo_total [OF assms(1)] by blast
  then show ?thesis using ClickRedo redo_inv [OF assms(1) u] redo_fields [OF u] assms(2)
    by (simp add: surface_ready_def)
next
  case ClickClear
  then show ?thesis using assms clearCanvas_inv [OF assms(1)]
    by (auto simp: clearCanvas_def surface_ready_def split: option.splits)
next
  case (ClickColor c)
  then show ?thesis using assms
    by (simp add: setColor_def history_inv_def surface_ready_def)
next
  case (ChangeWidth w)
  then show ?thesis using assms
    by (simp add: setStrokeWidth_def history_inv_def surface_ready_def)
next
  case (ImgLoad k)
  then show ?thesis using assms
    by (simp add: img_onload_inv img_onload_fields)
qed

lemma run_keeps_ready:
  assumes "history_inv s" and "surface_ready s"
  shows "\<exists>s'. run evs s = Inr s' \<and> history_inv s' \<and> surface_ready s'"
  using assms
proof (induction evs arbitrary: s)
  case Nil
  then show ?case by simp
next
  case (Cons e evs)
  obtain s1 where h: "handle e s = Inr s1" and p: "history_inv s1" "surface_ready s1"
    using handle_keeps_ready [OF Cons.prems] by blast
  show ?case using Cons.IH [OF p] h by simp
qed

lemma sessions_keep_ready:
  "\<exists>s. run evs initial_state = Inr s \<and> history_inv s \<and> surface_ready s"
proof -
  have "history_inv initial_state"
    by (simp add: history_inv_def initial_state_def)
  moreover have "surface_ready initial_state"
    by (simp add: surface_ready_def initial_state_def initial_canvas_def)
  ultimately show ?thesis by (rule run_keeps_ready)
qed

section \<open>The stroke renderer\<close>

text \<open>
  C1 (the code departs from the claim). endDrawing does not look at isDrawing: a
  stroke released inside the canvas commits one snapshot and leaves the renderer
  idle, and the pointer then leaving the canvas commits the same snapshot again.
\<close>

theorem endDrawing_idle_commits:
  "outcome isDrawing (run [MouseDown (pointer_at 10 10), MouseMove (pointer_at 20 10), MouseUp]
      initial_state) = Some False
   \<and> outcome history (run [MouseDown (pointer_at 10 10), MouseMove (pointer_at 20 10), MouseUp]
      initial_state) = Some [snap1]
   \<and> outcome historyIndex (run [MouseDown (pointer_at 10 10), MouseMove (pointer_at 20 10), MouseUp]
      initial_state) = Some 0
   \<and> outcome history (run stroke_and_leave initial_state) = Some [snap1, snap1]
   \<and> outcome historyIndex (run stroke_and_leave initial_state) = Some 1"
  by (simp add: outcome_def example_defs handler_defs Let_def)

text \<open>
  C8 (as stated: false). A colour change in the middle of a stroke is not reflected
  only in the segments drawn after it: the segment from (10, 10) to (20, 10), drawn in
  black before the change, is painted again in red by the next call of draw.
\<close>

theorem mid_stroke_change_repaints:
  "outcome surface (run mid_stroke_change initial_state) = Some mid_stroke_pixels
   \<and> segment_styles mid_stroke_pixels ((10, 10), (20, 10))
       = [(8, ''#000000''), (8, ''#FF0000'')]"
  by (simp add: outcome_def surface_def example_defs handler_defs Let_def
      segment_styles_def segments_def)

text \<open>
  C8 (amended). A stroke begun by startDrawing on an available surface and continued
  by any sequence of draw calls and tool changes leaves in the context exactly the
  path of the points since startDrawing (those with finite coordinates), whatever
  the path was before, and the strokeWidth and color last selected. Each further
  call of draw paints that whole path, extended by the new point, with the
  strokeWidth and color current at that call: the new segment uses the current
  values, not those at the start of the stroke, and every earlier segment of the same
  stroke is painted again with them.
\<close>

theorem stroke_paints_whole_path:
  assumes "canvasRef s = Some canvas" and "getContext canvas = Some ctx"
    and "list_all stroke_event evs"
  shows "\<exists>s'. run (MouseDown e0 # evs) s = Inr s'
           \<and> stroke_state canvas (stroke_points canvas (e0 # moves_of evs)) s'
           \<and> (strokeWidth s', color s') = current_tools (strokeWidth s, color s) evs
           \<and> stroke_state canvas (stroke_points canvas (e0 # moves_of evs @ [e])) (draw e s')
           \<and> surface (draw e s') =
               surface s' @ [\<lparr>paint_path = one_subpath (stroke_points canvas (e0 # moves_of evs @ [e])),
                               paint_width = strokeWidth s', paint_style = color s'\<rparr>]
           \<and> set (segments (one_subpath (stroke_points canvas (e0 # moves_of evs))))
               \<subseteq> set (segments (one_subpath (stroke_points canvas (e0 # moves_of evs @ [e]))))
           \<and> segment_styles (surface (draw e s')) seg =
               segment_styles (surface s') seg
                 @ (if seg \<in> set (segments (one_subpath (stroke_points canvas (e0 # moves_of evs @ [e]))))
                    then [(strokeWidth s', color s')] else [])"
proof -
  note st = startDrawing_stroke_state [OF assms(1,2), of e0]
  obtain s' where r: "run evs (startDrawing e0 s) = Inr s'"
    and ss: "stroke_state canvas (stroke_points canvas [e0] @ stroke_points canvas (moves_of evs)) s'"
    and t: "(strokeWidth s', color s')
        = current_tools (strokeWidth (startDrawing e0 s), color (startDrawing e0 s)) evs"
    using stroke_run [OF assms(3), of canvas "stroke_points canvas [e0]" "startDrawing e0 s"] st
    by blast
  have p1: "stroke_points canvas [e0] @ stroke_points canvas (moves_of evs)
      = stroke_points canvas (e0 # moves_of evs)"
    using stroke_points_append [of canvas "[e0]" "moves_of evs"] by simp
  have p2: "stroke_points canvas (e0 # moves_of evs) @ stroke_points canvas [e]
      = stroke_points canvas (e0 # moves_of evs @ [e])"
    using stroke_points_append [of canvas "e0 # moves_of evs" "[e]"] by simp
  note d = draw_stroke_state [OF ss [unfolded p1], of e, unfolded p2]
  have sub: "set (segments (one_subpath (stroke_points canvas (e0 # moves_of evs))))
      \<subseteq> set (segments (one_subpath (stroke_points canvas (e0 # moves_of evs @ [e]))))"
  proof (cases "finite_point (getMousePos canvas e)")
    case None
    then show ?thesis unfolding p2 [symmetric] stroke_points_one by simp
  next
    case (Some q)
    show ?thesis
      unfolding segments_one_subpath p2 [symmetric] stroke_points_one Some
      using zip_tl_snoc [of "stroke_points canvas (e0 # moves_of evs)" q] by simp
  qed
  have sg: "segment_styles (surface (draw e s')) seg =
               segment_styles (surface s') seg
                 @ (if seg \<in> set (segments (one_subpath (stroke_points canvas (e0 # moves_of evs @ [e]))))
                    then [(strokeWidth s', color s')] else [])"
    using d by (simp add: segment_styles_def)
  show ?thesis
    using r ss [unfolded p1] t st d sub sg by (intro exI [of _ s']) simp
qed

theorem stroke_paints_whole_path_witness:
  "canvasRef initial_state = Some initial_canvas
   \<and> getContext initial_canvas = Some initial_ctx
   \<and> list_all stroke_event [MouseMove (pointer_at 20 10), ClickColor ''#FF0000'']
   \<and> run [MouseDown (pointer_at 10 10), MouseMove (pointer_at 20 10), ClickColor ''#FF0000'']
         initial_state = Inr mid_stroke
   \<and> stroke_points initial_canvas [pointer_at 10 10, pointer_at 20 10, pointer_at 20 30]
       = [(10, 10), (20, 10), (20, 30)]
   \<and> (strokeWidth mid_stroke, color mid_stroke) = (8, ''#FF0000'')
   \<and> surface (draw (pointer_at 20 30) mid_stroke) = mid_stroke_pixels
   \<and> segment_styles (surface (draw (pointer_at 20 30) mid_stroke)) ((10, 10), (20, 10))
       = [(8, ''#000000''), (8, ''#FF0000'')]"
proof -
  have c: "canvasRef initial_state = Some initial_canvas"
    by (simp add: initial_state_def)
  have g: "getContext initial_canvas = Some initial_ctx"
    by (simp add: initial_canvas_def)
  have l: "list_all stroke_event [MouseMove (pointer_at 20 10), ClickColor ''#FF0000'']"
    by simp
  have pts: "stroke_points initial_canvas [pointer_at 10 10, pointer_at 20 10, pointer_at 20 30]
       = [(10, 10), (20, 10), (20, 30)]"
    by (simp add: stroke_points_def map_filter_def getMousePos_def finite_point_def
        js_sub_def js_div_def js_mul_def double_exact initial_canvas_def pointer_at_def Let_def)
  have sf: "surface mid_stroke
      = [\<lparr>paint_path = [[(10, 10), (20, 10)]], paint_width = 8, paint_style = ''#000000''\<rparr>]"
    by (simp add: surface_def mid_stroke_def snap1_def)
  have tl: "strokeWidth mid_stroke = 8 \<and> color mid_stroke = ''#FF0000''"
    by (simp add: mid_stroke_def)
  obtain s' where r: "run (MouseDown (pointer_at 10 10)
          # [MouseMove (pointer_at 20 10), ClickColor ''#FF0000'']) initial_state = Inr s'"
    and d: "surface (draw (pointer_at 20 30) s') =
               surface s' @ [\<lparr>paint_path = one_subpath (stroke_points initial_canvas
                    (pointer_at 10 10 # moves_of [MouseMove (pointer_at 20 10), ClickColor ''#FF0000'']
                       @ [pointer_at 20 30])),
                  paint_width = strokeWidth s', paint_style = color s'\<rparr>]"
    using stroke_paints_whole_path [OF c g l, of "pointer_at 10 10" "pointer_at 20 30"]
    by blast
  have s': "s' = mid_stroke" using r run_mid_stroke by simp
  have px: "surface (draw (pointer_at 20 30) mid_stroke) = mid_stroke_pixels"
    using d unfolding s' by (simp add: pts sf tl one_subpath_def mid_stroke_pixels_def)
  have sg: "segment_styles mid_stroke_pixels ((10, 10), (20, 10))
       = [(8, ''#000000''), (8, ''#FF0000'')]"
    by (simp add: mid_stroke_pixels_def segment_styles_def segments_def)
  show ?thesis
    using c g l run_mid_stroke pts tl px sg by simp
qed

section \<open>The coordinate mapper\<close>

text \<open>
  C9 (as stated: false). With the 800 by 600 canvas shown at 302 by 220 and the
  pointer at (151, 11), the formula gives exactly (400, 30); getMousePos computes the
  scale factors 800 / 302 and 600 / 220 first, each rounded to a double, and returns
  \<open>400 + 2^-44\<close> and \<open>30 - 2^-48\<close>.
\<close>

theorem getMousePos_not_exact:
  "getMousePos scaled_canvas (pointer_at 151 11)
     = \<lparr>x = Some (400 + 1 / 2 ^ 44), y = Some (30 - 1 / 2 ^ 48)\<rparr>
   \<and> (clientX (pointer_at 151 11) - rect_left (getBoundingClientRect scaled_canvas))
         * width scaled_canvas / rect_width (getBoundingClientRect scaled_canvas) = 400
   \<and> (clientY (pointer_at 151 11) - rect_top (getBoundingClientRect scaled_canvas))
         * height scaled_canvas / rect_height (getBoundingClientRect scaled_canvas) = 30
   \<and> getMousePos scaled_canvas (pointer_at 151 11) \<noteq> \<lparr>x = Some 400, y = Some 30\<rparr>"
  unfolding getMousePos_scaled
  by (simp add: scaled_canvas_def initial_canvas_def pointer_at_def)

text \<open>
  C9 (amended). getMousePos is a function of the canvas geometry and the pointer
  position that returns \<open>(pointerX - rectLeft) * (logicalWidth / displayedWidth)\<close>
  and \<open>(pointerY - rectTop) * (logicalHeight / displayedHeight)\<close> in double
  arithmetic: the difference, the quotient and then the product, each rounded to the
  nearest double. A coordinate is not finite when the displayed width (height) is
  zero. Otherwise, when the difference, the scale factor and their product are in
  range (zero, or of magnitude between \<open>2^-1021\<close> and \<open>2^1022\<close>), the coordinate
  is finite and within the relative error \<open>(1 + 2^-53)^3 - 1\<close> of the exact value
  of \<open>(pointerX - rectLeft) * logicalWidth / displayedWidth\<close>.
\<close>

theorem getMousePos_rounded:
  "x (getMousePos canvas evt)
     = js_mul (js_sub (clientX evt) (rect_left (getBoundingClientRect canvas)))
         (js_div (width canvas) (rect_width (getBoundingClientRect canvas)))
   \<and> y (getMousePos canvas evt)
     = js_mul (js_sub (clientY evt) (rect_top (getBoundingClientRect canvas)))
         (js_div (height canvas) (rect_height (getBoundingClientRect canvas)))
   \<and> (rect_width (getBoundingClientRect canvas) = 0 \<longrightarrow> x (getMousePos canvas evt) = None)
   \<and> (rect_height (getBoundingClientRect canvas) = 0 \<longrightarrow> y (getMousePos canvas evt) = None)
   \<and> (rect_width (getBoundingClientRect canvas) \<noteq> 0
        \<and> in_range (clientX evt - rect_left (getBoundingClientRect canvas))
        \<and> in_range (width canvas / rect_width (getBoundingClientRect canvas))
        \<and> in_range ((clientX evt - rect_left (getBoundingClientRect canvas))
                     * (width canvas / rect_width (getBoundingClientRect canvas))) \<longrightarrow>
      (\<exists>px. x (getMousePos canvas evt) = Some px
         \<and> \<bar>px - (clientX evt - rect_left (getBoundingClientRect canvas)) * width canvas
                   / rect_width (getBoundingClientRect canvas)\<bar>
             \<le> ((1 + 1 / 2 ^ 53) ^ 3 - 1)
                 * \<bar>(clientX evt - rect_left (getBoundingClientRect canvas)) * width canvas
                   / rect_width (getBoundingClientRect canvas)\<bar>))
   \<and> (rect_height (getBoundingClientRect canvas) \<noteq> 0
        \<and> in_range (clientY evt - rect_top (getBoundingClientRect canvas))
        \<and> in_range (height canvas / rect_height (getBoundingClientRect canvas))
        \<and> in_range ((clientY evt - rect_top (getBoundingClientRect canvas))
                     * (height canvas / rect_height (getBoundingClientRect canvas))) \<longrightarrow>
      (\<exists>py. y (getMousePos canvas evt) = Some py
         \<and> \<bar>py - (clientY evt - rect_top (getBoundingClientRect canvas)) * height canvas
                   / rect_height (getBoundingClientRect canvas)\<bar>
             \<le> ((1 + 1 / 2 ^ 53) ^ 3 - 1)
                 * \<bar>(clientY evt - rect_top (getBoundingClientRect canvas)) * height canvas
                   / rect_height (getBoundingClientRect canvas)\<bar>))"
proof -
  have ex: "x (getMousePos canvas evt)
     = js_mul (js_sub (clientX evt) (rect_left (getBoundingClientRect canvas)))
         (js_div (width canvas) (rect_width (getBoundingClientRect canvas)))"
    and ey: "y (getMousePos canvas evt)
     = js_mul (js_sub (clientY evt) (rect_top (getBoundingClientRect canvas)))
         (js_div (height canvas) (rect_height (getBoundingClientRect canvas)))"
    by (simp_all add: getMousePos_def Let_def)
  have zx: "x (getMousePos canvas evt) = None" if "rect_width (getBoundingClientRect canvas) = 0"
    unfolding ex using that by (simp add: js_div_def js_mul_def split: option.splits)
  have zy: "y (getMousePos canvas evt) = None" if "rect_height (getBoundingClientRect canvas) = 0"
    unfolding ey using that by (simp add: js_div_def js_mul_def split: option.splits)
  show ?thesis
    unfolding ex [symmetric] ey [symmetric]
    using ex ey zx zy
      scaled_coordinate_error [of "rect_width (getBoundingClientRect canvas)" "clientX evt"
        "rect_left (getBoundingClientRect canvas)" "width canvas"]
      scaled_coordinate_error [of "rect_height (getBoundingClientRect canvas)" "clientY evt"
        "rect_top (getBoundingClientRect canvas)" "height canvas"]
    by auto
qed

theorem getMousePos_rounded_witness:
  "rect_width (getBoundingClientRect scaled_canvas) \<noteq> 0
   \<and> rect_height (getBoundingClientRect scaled_canvas) \<noteq> 0
   \<and> in_range (151 - 0) \<and> in_range (800 / 302) \<and> in_range ((151 - 0) * (800 / 302))
   \<and> in_range (11 - 0) \<and> in_range (600 / 220) \<and> in_range ((11 - 0) * (600 / 220))
   \<and> x (getMousePos scaled_canvas (pointer_at 151 11)) = Some (400 + 1 / 2 ^ 44)
   \<and> \<bar>400 + 1 / 2 ^ 44 - 400\<bar> \<le> ((1 + 1 / 2 ^ 53) ^ 3 - 1) * \<bar>400 :: real\<bar>
   \<and> y (getMousePos scaled_canvas (pointer_at 151 11)) = Some (30 - 1 / 2 ^ 48)
   \<and> \<bar>30 - 1 / 2 ^ 48 - 30\<bar> \<le> ((1 + 1 / 2 ^ 53) ^ 3 - 1) * \<bar>30 :: real\<bar>
   \<and> x (getMousePos (scaled_canvas\<lparr>getBoundingClientRect :=
          \<lparr>rect_left = 0, rect_top = 0, rect_width = 0, rect_height = 0\<rparr>\<rparr>) (pointer_at 151 11))
       = None"
proof -
  have r: "in_range (151 - 0)" "in_range (800 / 302)" "in_range ((151 - 0) * (800 / 302))"
    "in_range (11 - 0)" "in_range (600 / 220)" "in_range ((11 - 0) * (600 / 220))"
    by (simp_all add: in_range_def)
  have g: "clientX (pointer_at 151 11) = 151" "clientY (pointer_at 151 11) = 11"
    "rect_left (getBoundingClientRect scaled_canvas) = 0"
    "rect_top (getBoundingClientRect scaled_canvas) = 0"
    "rect_width (getBoundingClientRect scaled_canvas) = 302"
    "rect_height (getBoundingClientRect scaled_canvas) = 220"
    "width scaled_canvas = 800" "height scaled_canvas = 600"
    by (simp_all add: scaled_canvas_def initial_canvas_def pointer_at_def)
  have nz: "(302::real) \<noteq> 0" "(220::real) \<noteq> 0" by simp_all
  note t = getMousePos_rounded [of scaled_canvas "pointer_at 151 11", unfolded g]
  have bx: "\<exists>px. x (getMousePos scaled_canvas (pointer_at 151 11)) = Some px
      \<and> \<bar>px - (151 - 0) * 800 / 302\<bar>
          \<le> ((1 + 1 / 2 ^ 53) ^ 3 - 1) * \<bar>(151 - 0) * 800 / 302 :: real\<bar>"
    using t r nz by blast
  have by': "\<exists>py. y (getMousePos scaled_canvas (pointer_at 151 11)) = Some py
      \<and> \<bar>py - (11 - 0) * 600 / 220\<bar>
          \<le> ((1 + 1 / 2 ^ 53) ^ 3 - 1) * \<bar>(11 - 0) * 600 / 220 :: real\<bar>"
    using t r nz by blast
  have z: "x (getMousePos (scaled_canvas\<lparr>getBoundingClientRect :=
          \<lparr>rect_left = 0, rect_top = 0, rect_width = 0, rect_height = 0\<rparr>\<rparr>) (pointer_at 151 11))
       = None"
    using getMousePos_rounded [of "scaled_canvas\<lparr>getBoundingClientRect :=
          \<lparr>rect_left = 0, rect_top = 0, rect_width = 0, rect_height = 0\<rparr>\<rparr>" "pointer_at 151 11",
        THEN conjunct2, THEN conjunct2, THEN conjunct1]
    by simp
  have vx: "x (getMousePos scaled_canvas (pointer_at 151 11)) = Some (400 + 1 / 2 ^ 44)"
    and vy: "y (getMousePos scaled_canvas (pointer_at 151 11)) = Some (30 - 1 / 2 ^ 48)"
    by (simp_all add: getMousePos_scaled)
  obtain px where p1: "x (getMousePos scaled_canvas (pointer_at 151 11)) = Some px"
    and p2: "\<bar>px - (151 - 0) * 800 / 302\<bar>
          \<le> ((1 + 1 / 2 ^ 53) ^ 3 - 1) * \<bar>(151 - 0) * 800 / 302 :: real\<bar>"
    using bx by blast
  have px: "px = 400 + 1 / 2 ^ 44" using p1 vx by simp
  have e400: "(151 - 0) * 800 / 302 = (400::real)" by simp
  have ex: "\<bar>400 + 1 / 2 ^ 44 - 400\<bar> \<le> ((1 + 1 / 2 ^ 53) ^ 3 - 1) * \<bar>400 :: real\<bar>"
    using p2 unfolding px e400 .
  obtain py where q1: "y (getMousePos scaled_canvas (pointer_at 151 11)) = Some py"
    and q2: "\<bar>py - (11 - 0) * 600 / 220\<bar>
          \<le> ((1 + 1 / 2 ^ 53) ^ 3 - 1) * \<bar>(11 - 0) * 600 / 220 :: real\<bar>"
    using by' by blast
  have py: "py = 30 - 1 / 2 ^ 48" using q1 vy by simp
  have e30: "(11 - 0) * 600 / 220 = (30::real)" by simp
  have ey: "\<bar>30 - 1 / 2 ^ 48 - 30\<bar> \<le> ((1 + 1 / 2 ^ 53) ^ 3 - 1) * \<bar>30 :: real\<bar>"
    using q2 unfolding py e30 .
  have w: "rect_width (getBoundingClientRect scaled_canvas) \<noteq> 0"
    "rect_height (getBoundingClientRect scaled_canvas) \<noteq> 0"
    unfolding g by simp_all
  show ?thesis using r w vx vy ex ey z by blast
qed

section \<open>The snapshot history\<close>

text \<open>
  C2. In a state with a canvas whose history satisfies the invariant, endDrawing
  commits: the history becomes its first historyIndex + 1 snapshots followed by the
  new snapshot (the canvas content with the current strokeWidth and color), and the
  index becomes historyIndex + 1. The index is then the last position of the history
  and redo leaves the state as it is.
\<close>

theorem endDrawing_commit:
  assumes "canvasRef s = Some canvas" and "history_inv s"
  shows "history (endDrawing s) =
           take (nat (historyIndex s + 1)) (history s)
             @ [\<lparr>dataURL = toDataURL canvas, snap_strokeWidth = strokeWidth s,
                  snap_color = color s\<rparr>]
         \<and> historyIndex (endDrawing s) = historyIndex s + 1
         \<and> historyIndex (endDrawing s) = int (length (history (endDrawing s))) - 1
         \<and> redo (endDrawing s) = Inr (endDrawing s)"
proof -
  have sl: "js_slice (history s) 0 (historyIndex s + 1)
      = take (nat (historyIndex s + 1)) (history s)"
    using assms(2) by (simp add: js_slice_prefix history_inv_def)
  have h: "history (endDrawing s) =
           take (nat (historyIndex s + 1)) (history s)
             @ [\<lparr>dataURL = toDataURL canvas, snap_strokeWidth = strokeWidth s,
                  snap_color = color s\<rparr>]"
    using assms(1) sl by (simp add: endDrawing_def)
  have i: "historyIndex (endDrawing s) = historyIndex s + 1"
    using assms(1) by (simp add: endDrawing_def)
  have l: "historyIndex (endDrawing s) = int (length (history (endDrawing s))) - 1"
    using assms(2) unfolding h i by (auto simp: history_inv_def)
  have r: "redo (endDrawing s) = Inr (endDrawing s)"
    using l by (simp add: redo_def)
  from h i l r show ?thesis by simp
qed

theorem endDrawing_commit_witness:
  "canvasRef after_three_strokes = Some (initial_canvas
        \<lparr>getContext := Some (initial_ctx\<lparr>lineWidth := 8, path := [[(10, 30), (20, 30)]]\<rparr>),
         pixels := dataURL snap3\<rparr>)
   \<and> history_inv (after_three_strokes\<lparr>historyIndex := 0\<rparr>)
   \<and> history (endDrawing (after_three_strokes\<lparr>historyIndex := 0\<rparr>)) = [snap1, snap3]
   \<and> historyIndex (endDrawing (after_three_strokes\<lparr>historyIndex := 0\<rparr>)) = 1
   \<and> redo (endDrawing (after_three_strokes\<lparr>historyIndex := 0\<rparr>))
       = Inr (endDrawing (after_three_strokes\<lparr>historyIndex := 0\<rparr>))"
proof -
  have c: "canvasRef (after_three_strokes\<lparr>historyIndex := 0\<rparr>) = Some (initial_canvas
        \<lparr>getContext := Some (initial_ctx\<lparr>lineWidth := 8, path := [[(10, 30), (20, 30)]]\<rparr>),
         pixels := dataURL snap3\<rparr>)"
    by (simp add: after_three_strokes_def)
  have v: "history_inv (after_three_strokes\<lparr>historyIndex := 0\<rparr>)"
    by (simp add: history_inv_def after_three_strokes_def)
  show ?thesis
    using endDrawing_commit [OF c v] c v
    by (simp add: after_three_strokes_def toDataURL_def snap3_def)
qed

text \<open>
  C4. The invariant \<open>-1 \<le> historyIndex \<le> length history - 1\<close> holds in the
  initial state, and endDrawing, undo, redo and clearCanvas each lead from a state
  that satisfies it to a state that satisfies it (undo and redo without an error).
\<close>

theorem history_inv_preserved:
  assumes "history_inv s"
  shows "history_inv initial_state
         \<and> history_inv (endDrawing s)
         \<and> (\<exists>s'. undo s = Inr s' \<and> history_inv s')
         \<and> (\<exists>s'. redo s = Inr s' \<and> history_inv s')
         \<and> history_inv (clearCanvas s)"
proof -
  have "history_inv initial_state"
    by (simp add: history_inv_def initial_state_def)
  moreover have "\<exists>s'. undo s = Inr s' \<and> history_inv s'"
    using undo_total [OF assms] undo_inv [OF assms] by blast
  moreover have "\<exists>s'. redo s = Inr s' \<and> history_inv s'"
    using redo_total [OF assms] redo_inv [OF assms] by blast
  ultimately show ?thesis
    using endDrawing_inv [OF assms] clearCanvas_inv [OF assms] by simp
qed

theorem history_inv_preserved_witness:
  "history_inv (after_three_strokes\<lparr>historyIndex := 1\<rparr>)
   \<and> history_inv (endDrawing (after_three_strokes\<lparr>historyIndex := 1\<rparr>))
   \<and> outcome history_inv (undo (after_three_strokes\<lparr>historyIndex := 1\<rparr>)) = Some True
   \<and> outcome history_inv (redo (after_three_strokes\<lparr>historyIndex := 1\<rparr>)) = Some True
   \<and> history_inv (clearCanvas (after_three_strokes\<lparr>historyIndex := 1\<rparr>))"
proof -
  have v: "history_inv (after_three_strokes\<lparr>historyIndex := 1\<rparr>)"
    by (simp add: history_inv_def after_three_strokes_def)
  show ?thesis
    using history_inv_preserved [OF v] v by (auto simp: outcome_def)
qed

text \<open>
  C6. With historyIndex at 0 (or below: -1, the empty history), undo returns the
  state unchanged; with historyIndex at the last position of the history, redo
  returns the state unchanged. Neither is an error.
\<close>

theorem undo_redo_at_bounds:
  "(historyIndex s \<le> 0 \<longrightarrow> undo s = Inr s)
   \<and> (int (length (history s)) - 1 \<le> historyIndex s \<longrightarrow> redo s = Inr s)"
  by (simp add: undo_def redo_def)

theorem undo_redo_at_bounds_witness:
  "historyIndex initial_state \<le> 0
   \<and> undo initial_state = Inr initial_state
   \<and> historyIndex (after_three_strokes\<lparr>historyIndex := 0\<rparr>) \<le> 0
   \<and> undo (after_three_strokes\<lparr>historyIndex := 0\<rparr>) = Inr (after_three_strokes\<lparr>historyIndex := 0\<rparr>)
   \<and> int (length (history after_three_strokes)) - 1 \<le> historyIndex after_three_strokes
   \<and> redo after_three_strokes = Inr after_three_strokes"
proof -
  have a: "historyIndex initial_state \<le> 0"
    by (simp add: initial_state_def)
  have b: "historyIndex (after_three_strokes\<lparr>historyIndex := 0\<rparr>) \<le> 0"
    by simp
  have c: "int (length (history after_three_strokes)) - 1 \<le> historyIndex after_three_strokes"
    by (simp add: after_three_strokes_def)
  show ?thesis
    using undo_redo_at_bounds [of initial_state]
      undo_redo_at_bounds [of "after_three_strokes\<lparr>historyIndex := 0\<rparr>"]
      undo_redo_at_bounds [of after_three_strokes] a b c
    by blast
qed

text \<open>
  C7. With the canvas and its context available, clearCanvas keeps the canvas
  element and wipes its pixels blank, leaves the history empty (no blank snapshot is
  pushed) and the index at -1, and changes nothing else; an undo right after it
  returns the state unchanged.
\<close>

theorem clearCanvas_resets:
  assumes "canvasRef s = Some canvas" and "getContext canvas = Some ctx"
  shows "clearCanvas s = s\<lparr>canvasRef := Some (canvas\<lparr>pixels := []\<rparr>),
                            history := [], historyIndex := - 1\<rparr>
         \<and> canvasRef (clearCanvas s) = Some (canvas\<lparr>pixels := []\<rparr>)
         \<and> history (clearCanvas s) = [] \<and> historyIndex (clearCanvas s) = - 1
         \<and> surface (clearCanvas s) = []
         \<and> undo (clearCanvas s) = Inr (clearCanvas s)"
  using assms
  by (simp add: clearCanvas_def surface_def clearRect_def undo_def)

theorem clearCanvas_resets_witness:
  "canvasRef after_three_strokes = Some (initial_canvas
        \<lparr>getContext := Some (initial_ctx\<lparr>lineWidth := 8, path := [[(10, 30), (20, 30)]]\<rparr>),
         pixels := dataURL snap3\<rparr>)
   \<and> surface after_three_strokes \<noteq> []
   \<and> canvasRef (clearCanvas after_three_strokes) = Some (initial_canvas
        \<lparr>getContext := Some (initial_ctx\<lparr>lineWidth := 8, path := [[(10, 30), (20, 30)]]\<rparr>),
         pixels := []\<rparr>)
   \<and> history (clearCanvas after_three_strokes) = []
   \<and> historyIndex (clearCanvas after_three_strokes) = - 1
   \<and> surface (clearCanvas after_three_strokes) = []
   \<and> undo (clearCanvas after_three_strokes) = Inr (clearCanvas after_three_strokes)"
proof -
  have c: "canvasRef after_three_strokes = Some (initial_canvas
        \<lparr>getContext := Some (initial_ctx\<lparr>lineWidth := 8, path := [[(10, 30), (20, 30)]]\<rparr>),
         pixels := dataURL snap3\<rparr>)"
    by (simp add: after_three_strokes_def)
  have g: "getContext (initial_canvas
        \<lparr>getContext := Some (initial_ctx\<lparr>lineWidth := 8, path := [[(10, 30), (20, 30)]]\<rparr>),
         pixels := dataURL snap3\<rparr>)
      = Some (initial_ctx\<lparr>lineWidth := 8, path := [[(10, 30), (20, 30)]]\<rparr>)"
    by simp
  have n: "surface after_three_strokes \<noteq> []"
    by (simp add: surface_def after_three_strokes_def snap3_def)
  show ?thesis
    using clearCanvas_resets [OF c g, THEN conjunct2] c n by simp
qed

text \<open>
  C10. undo and redo return a state with the same history (the same snapshots at the
  same positions), the same canvas element and the same isDrawing; with the invariant
  they return without an error. The completion of an image load, which changes the
  pixels, leaves the history unchanged as well.
\<close>

theorem undo_redo_keep_history:
  "(\<forall>s'. undo s = Inr s' \<longrightarrow>
       history s' = history s \<and> canvasRef s' = canvasRef s \<and> isDrawing s' = isDrawing s)
   \<and> (\<forall>s'. redo s = Inr s' \<longrightarrow>
       history s' = history s \<and> canvasRef s' = canvasRef s \<and> isDrawing s' = isDrawing s)
   \<and> (history_inv s \<longrightarrow> (\<exists>s'. undo s = Inr s') \<and> (\<exists>s'. redo s = Inr s'))
   \<and> history (img_onload k s) = history s"
  using undo_fields [of s] redo_fields [of s] undo_total [of s] redo_total [of s]
  by (auto simp: img_onload_def Let_def split: option.splits)

theorem undo_redo_keep_history_witness:
  "history_inv (after_three_strokes\<lparr>historyIndex := 1\<rparr>)
   \<and> outcome historyIndex (undo (after_three_strokes\<lparr>historyIndex := 1\<rparr>)) = Some 0
   \<and> outcome history (undo (after_three_strokes\<lparr>historyIndex := 1\<rparr>))
       = Some [snap1, snap2, snap3]
   \<and> outcome historyIndex (redo (after_three_strokes\<lparr>historyIndex := 1\<rparr>)) = Some 2
   \<and> outcome history (redo (after_three_strokes\<lparr>historyIndex := 1\<rparr>))
       = Some [snap1, snap2, snap3]"
proof -
  have v: "history_inv (after_three_strokes\<lparr>historyIndex := 1\<rparr>)"
    by (simp add: history_inv_def after_three_strokes_def)
  have h: "history (after_three_strokes\<lparr>historyIndex := 1\<rparr>) = [snap1, snap2, snap3]"
    by (simp add: after_three_strokes_def)
  have u: "outcome historyIndex (undo (after_three_strokes\<lparr>historyIndex := 1\<rparr>)) = Some 0"
    by (simp add: outcome_def undo_def loadHistoryState_def js_index_def
        after_three_strokes_def initial_canvas_def)
  have r: "outcome historyIndex (redo (after_three_strokes\<lparr>historyIndex := 1\<rparr>)) = Some 2"
    by (simp add: outcome_def redo_def loadHistoryState_def js_index_def
        after_three_strokes_def initial_canvas_def)
  show ?thesis
    using undo_redo_keep_history [of "after_three_strokes\<lparr>historyIndex := 1\<rparr>" 0] v h u r
    by (auto simp: outcome_def split: sum.splits)
qed

text \<open>
  C3 (as stated: false). A colour picked after the last commit is not restored by
  undo followed by redo: before the undo the index is 1 and the colour is red, after
  undo, redo and both image loads the colour is the black recorded in the snapshot.
\<close>

theorem undo_redo_loses_tool_change:
  "outcome historyIndex (run before_undo_session initial_state) = Some 1
   \<and> outcome color (run before_undo_session initial_state) = Some ''#FF0000''
   \<and> outcome color (run undo_redo_session initial_state) = Some ''#000000''
   \<and> outcome loading (run undo_redo_session initial_state) = Some []"
  by (simp add: outcome_def example_defs handler_defs Let_def)

text \<open>
  C3 (amended). In a state with index > 0 (history invariant, surface available),
  undo followed by redo returns without an error, leaves the history and the index
  as they were, and sets strokeWidth and color to the values recorded in the snapshot
  at the index; once the images still loading have loaded in the order of their
  requests the canvas shows the image of that snapshot. The whole state is then the
  state before the undo whenever, before the undo, the tool state and the canvas were
  those of that snapshot and no image was loading.
\<close>

theorem undo_redo_restores_snapshot:
  assumes "history_inv s" and "surface_ready s" and "0 < historyIndex s"
  shows "\<exists>s2. run [ClickUndo, ClickRedo] s = Inr s2
           \<and> history s2 = history s \<and> historyIndex s2 = historyIndex s
           \<and> strokeWidth s2 = snap_strokeWidth (history s ! nat (historyIndex s))
           \<and> color s2 = snap_color (history s ! nat (historyIndex s))
           \<and> surface (all_loaded s2) = dataURL (history s ! nat (historyIndex s))
           \<and> (strokeWidth s = snap_strokeWidth (history s ! nat (historyIndex s))
              \<and> color s = snap_color (history s ! nat (historyIndex s))
              \<and> surface s = dataURL (history s ! nat (historyIndex s))
              \<and> loading s = []
              \<longrightarrow> all_loaded s2 = s)"
proof -
  obtain canvas ctx where c: "canvasRef s = Some canvas" and g: "getContext canvas = Some ctx"
    using assms(2) by (auto simp: surface_ready_def split: option.splits)
  let ?i = "historyIndex s"
  let ?h = "history s ! nat ?i"
  let ?p = "history s ! nat (?i - 1)"
  let ?s1 = "s\<lparr>historyIndex := ?i - 1, loading := loading s @ [dataURL ?p],
               strokeWidth := snap_strokeWidth ?p, color := snap_color ?p\<rparr>"
  let ?s2 = "s\<lparr>loading := loading s @ [dataURL ?p, dataURL ?h],
               strokeWidth := snap_strokeWidth ?h, color := snap_color ?h\<rparr>"
  have bound: "?i < int (length (history s))"
    using assms(1) by (simp add: history_inv_def)
  have u: "undo s = Inr ?s1"
    using assms(3) bound c g by (simp add: undo_def loadHistoryState_def js_index_def)
  have r: "redo ?s1 = Inr ?s2"
    using assms(3) bound c g by (simp add: redo_def loadHistoryState_def js_index_def)
  have run: "run [ClickUndo, ClickRedo] s = Inr ?s2"
    using u r by simp
  have c2: "canvasRef ?s2 = Some canvas" using c by simp
  have al: "all_loaded ?s2 = ?s2\<lparr>canvasRef := Some (canvas\<lparr>pixels := dataURL ?h\<rparr>), loading := []\<rparr>"
    using all_loaded_last [OF c2] by simp
  have sf: "surface (all_loaded ?s2) = dataURL ?h"
    unfolding al by (simp add: surface_def)
  have same: "all_loaded ?s2 = s"
    if "strokeWidth s = snap_strokeWidth ?h" "color s = snap_color ?h"
      "surface s = dataURL ?h" "loading s = []"
    unfolding al using that c by (simp add: surface_def)
  show ?thesis
    using run sf same by (intro exI [of _ ?s2]) simp
qed

theorem undo_redo_restores_snapshot_witness:
  "history_inv after_three_strokes \<and> surface_ready after_three_strokes
   \<and> 0 < historyIndex after_three_strokes
   \<and> outcome all_loaded (run [ClickUndo, ClickRedo] after_three_strokes)
       = Some after_three_strokes"
proof -
  have v: "history_inv after_three_strokes"
    by (simp add: history_inv_def after_three_strokes_def)
  have r: "surface_ready after_three_strokes"
    by (simp add: surface_ready_def after_three_strokes_def initial_canvas_def)
  have p: "0 < historyIndex after_three_strokes"
    by (simp add: after_three_strokes_def)
  have same: "strokeWidth after_three_strokes
        = snap_strokeWidth (history after_three_strokes ! nat (historyIndex after_three_strokes))
      \<and> color after_three_strokes
        = snap_color (history after_three_strokes ! nat (historyIndex after_three_strokes))
      \<and> surface after_three_strokes
        = dataURL (history after_three_strokes ! nat (historyIndex after_three_strokes))
      \<and> loading after_three_strokes = []"
    by (simp add: after_three_strokes_def surface_def snap3_def)
  show ?thesis
    using undo_redo_restores_snapshot [OF v r p] v r p same
    by (auto simp: outcome_def)
qed

text \<open>
  C5 (as stated: false). Two undos are requested and the image of the second loads
  before the image of the first: the late completion of the first overwrites the
  canvas, which ends showing snapshot 3 while the history index points at snapshot 2.
\<close>

theorem stale_load_overwrites:
  "outcome historyIndex (run stale_load_session initial_state) = Some 1
   \<and> outcome history (run stale_load_session initial_state) = Some [snap1, snap2, snap3, snap3]
   \<and> outcome loading (run stale_load_session initial_state) = Some []
   \<and> outcome surface (run stale_load_session initial_state) = Some (dataURL snap3)
   \<and> dataURL snap3 \<noteq> dataURL snap2"
  by (simp add: outcome_def surface_def example_defs handler_defs Let_def)

text \<open>
  C5 (amended). In every state with a canvas, the completion of any image load
  replaces the canvas content by its own image, whether or not a later undo or redo
  has been requested: nothing suppresses a stale completion. If the loads complete
  in the order of their requests then, from a state in step with its history and
  through any sequence of undo and redo requests and of such completions, the
  canvas shows the snapshot at the current history index once every load has
  completed.
\<close>

theorem loads_in_issue_order:
  "(canvasRef t = Some canvas \<and> k < length (loading t) \<longrightarrow>
      img_onload k t = t\<lparr>canvasRef := Some (canvas\<lparr>pixels := loading t ! k\<rparr>),
                         loading := take k (loading t) @ drop (Suc k) (loading t)\<rparr>
      \<and> surface (img_onload k t) = loading t ! k)
   \<and> (history_inv s \<and> surface_ready s \<and> in_step s
        \<and> set evs \<subseteq> {ClickUndo, ClickRedo, ImgLoad 0} \<longrightarrow>
      (\<exists>s'. run evs s = Inr s'
         \<and> js_index (history s') (historyIndex s') = Some (history s' ! nat (historyIndex s'))
         \<and> shown_when_loaded s' = dataURL (history s' ! nat (historyIndex s'))))"
proof -
  have a: "img_onload k t = t\<lparr>canvasRef := Some (canvas\<lparr>pixels := loading t ! k\<rparr>),
                         loading := take k (loading t) @ drop (Suc k) (loading t)\<rparr>
      \<and> surface (img_onload k t) = loading t ! k"
    if "canvasRef t = Some canvas" "k < length (loading t)"
    using that by (simp add: img_onload_def Let_def surface_def clearRect_def drawImage_def)
  have b: "\<exists>s'. run evs s = Inr s'
         \<and> js_index (history s') (historyIndex s') = Some (history s' ! nat (historyIndex s'))
         \<and> shown_when_loaded s' = dataURL (history s' ! nat (historyIndex s'))"
    if h: "history_inv s" "surface_ready s" "in_step s"
      "set evs \<subseteq> {ClickUndo, ClickRedo, ImgLoad 0}"
  proof -
    obtain s' where r: "run evs s = Inr s'" and p: "surface_ready s'" "in_step s'"
      using run_in_step [OF h] by blast
    show ?thesis using r in_step_shown [OF p] by simp
  qed
  show ?thesis using a b by blast
qed

theorem loads_in_issue_order_witness:
  "canvasRef stale_pending = Some (initial_canvas
        \<lparr>getContext := Some (initial_ctx\<lparr>lineWidth := 8, path := [[(10, 30), (20, 30)]]\<rparr>),
         pixels := dataURL snap2\<rparr>)
   \<and> 0 < length (loading stale_pending)
   \<and> \<not> in_step stale_pending
   \<and> surface stale_pending = dataURL snap2
   \<and> surface (img_onload 0 stale_pending) = dataURL snap3
   \<and> loading (img_onload 0 stale_pending) = []
   \<and> history_inv after_three_strokes \<and> surface_ready after_three_strokes
   \<and> in_step after_three_strokes
   \<and> set [ClickUndo, ClickUndo, ImgLoad 0, ClickRedo] \<subseteq> {ClickUndo, ClickRedo, ImgLoad 0}
   \<and> outcome historyIndex (run [ClickUndo, ClickUndo, ImgLoad 0, ClickRedo] after_three_strokes)
       = Some 1
   \<and> outcome loading (run [ClickUndo, ClickUndo, ImgLoad 0, ClickRedo] after_three_strokes)
       = Some [dataURL snap1, dataURL snap2]
   \<and> outcome shown_when_loaded (run [ClickUndo, ClickUndo, ImgLoad 0, ClickRedo] after_three_strokes)
       = Some (dataURL snap2)"
proof -
  have c: "canvasRef stale_pending = Some (initial_canvas
        \<lparr>getContext := Some (initial_ctx\<lparr>lineWidth := 8, path := [[(10, 30), (20, 30)]]\<rparr>),
         pixels := dataURL snap2\<rparr>)"
    by (simp add: stale_pending_def)
  have l: "0 < length (loading stale_pending)"
    by (simp add: stale_pending_def)
  have l0: "loading stale_pending = [dataURL snap3]"
    by (simp add: stale_pending_def)
  have n: "\<not> in_step stale_pending"
    by (simp add: in_step_def js_index_def stale_pending_def snap2_def snap3_def)
  have sf: "surface stale_pending = dataURL snap2"
    by (simp add: surface_def stale_pending_def)
  have v: "history_inv after_three_strokes"
    by (simp add: history_inv_def after_three_strokes_def)
  have r: "surface_ready after_three_strokes"
    by (simp add: surface_ready_def after_three_strokes_def initial_canvas_def)
  have i: "in_step after_three_strokes"
    by (simp add: in_step_def js_index_def surface_def after_three_strokes_def)
  have e: "set [ClickUndo, ClickUndo, ImgLoad 0, ClickRedo] \<subseteq> {ClickUndo, ClickRedo, ImgLoad 0}"
    by simp
  have x: "outcome historyIndex (run [ClickUndo, ClickUndo, ImgLoad 0, ClickRedo] after_three_strokes)
       = Some 1
     \<and> outcome loading (run [ClickUndo, ClickUndo, ImgLoad 0, ClickRedo] after_three_strokes)
       = Some [dataURL snap1, dataURL snap2]
     \<and> outcome history (run [ClickUndo, ClickUndo, ImgLoad 0, ClickRedo] after_three_strokes)
       = Some [snap1, snap2, snap3]"
    by (simp add: outcome_def after_three_strokes_def initial_canvas_def initial_ctx_def
        undo_def redo_def loadHistoryState_def img_onload_def js_index_def clearRect_def
        drawImage_def Let_def)
  have first: "surface (img_onload 0 stale_pending) = dataURL snap3
      \<and> loading (img_onload 0 stale_pending) = []"
    using loads_in_issue_order [THEN conjunct1, of stale_pending "initial_canvas
        \<lparr>getContext := Some (initial_ctx\<lparr>lineWidth := 8, path := [[(10, 30), (20, 30)]]\<rparr>),
         pixels := dataURL snap2\<rparr>" 0] c l l0 by (simp add: surface_def)
  have second: "\<exists>s'. run [ClickUndo, ClickUndo, ImgLoad 0, ClickRedo] after_three_strokes = Inr s'
         \<and> js_index (history s') (historyIndex s') = Some (history s' ! nat (historyIndex s'))
         \<and> shown_when_loaded s' = dataURL (history s' ! nat (historyIndex s'))"
    using loads_in_issue_order [THEN conjunct2, of after_three_strokes
        "[ClickUndo, ClickUndo, ImgLoad 0, ClickRedo]"] v r i e by blast
  have shown: "outcome shown_when_loaded
      (run [ClickUndo, ClickUndo, ImgLoad 0, ClickRedo] after_three_strokes) = Some (dataURL snap2)"
    using second x by (auto simp: outcome_def split: sum.splits)
  show ?thesis using c l n sf first v r i e x shown by simp
qed

end
